theory Spec2Isabelle
  imports Complex_Main "HOL-Library.Sublist"
begin

section \<open>Python exceptions\<close>

text \<open>
  The exceptions the modelled code can raise. \<open>RequestException\<close> stands for
  \<^verbatim>\<open>requests.exceptions.RequestException\<close> and its subclasses (connection errors, timeouts,
  and the \<^verbatim>\<open>HTTPError\<close> of \<^verbatim>\<open>raise_for_status\<close>); \<open>OtherException\<close> for any exception that
  is not one of them (an \<^verbatim>\<open>OSError\<close> of the file system, for instance).
\<close>

datatype py_exception = IndexError | RequestException | OtherException


section \<open>spider.py: the link-discovery engine\<close>

subsection \<open>Python values used by the scraper\<close>

text \<open>
  \<^verbatim>\<open>str(n)\<close> for a non-negative integer: its decimal digits, most significant first.
\<close>

definition digit_char :: "nat \<Rightarrow> char" where
  "digit_char d = ''0123456789'' ! d"

fun str_nat :: "nat \<Rightarrow> string" where
  "str_nat n = (if n < 10 then [digit_char n] else str_nat (n div 10) @ [digit_char (n mod 10)])"

subsection \<open>scroll_page (lines 409-456)\<close>

text \<open>
  One pass through the \<^verbatim>\<open>try\<close> block of \<^verbatim>\<open>scroll_page\<close> either raises, or reads
  \<^verbatim>\<open>before_height\<close>, scrolls and reads \<^verbatim>\<open>after_height\<close>. The page is the environment:
  it answers the pass number \<open>retry_count\<close> with one of the two. The rate limiter, the
  mouse movement and the delays of the block only take time; they are not part of the answer.
\<close>

datatype scroll_try = ScrollRaises | Heights int int

definition MAX_RETRIES :: nat where
  "MAX_RETRIES = 3"

function scroll_page_from :: "nat \<Rightarrow> (nat \<Rightarrow> scroll_try) \<Rightarrow> bool" where
  "scroll_page_from retry_count page =
     (if retry_count < MAX_RETRIES then
        (case page retry_count of
           Heights before_height after_height \<Rightarrow> after_height > before_height
         | ScrollRaises \<Rightarrow>
             (if retry_count + 1 < MAX_RETRIES then scroll_page_from (retry_count + 1) page
              else False))
      else False)"
  by pat_completeness auto
termination
  by (relation "measure (\<lambda>(retry_count, page). MAX_RETRIES - retry_count)") auto

definition scroll_page :: "(nat \<Rightarrow> scroll_try) \<Rightarrow> bool" where
  "scroll_page page = scroll_page_from 0 page"

subsection \<open>The scraper, the link set and the files under ./url\<close>

text \<open>
  \<^verbatim>\<open>download_links\<close> is a Python set. The model keeps it as a list without duplicates, in
  insertion order; Python iterates a set in an order of its own, so the theorems speak of the
  members and of their number only. \<open>url_dir\<close> is the content of the directory
  \<^verbatim>\<open>./url\<close>: the lines of each file, by file name.
\<close>

record scraper =
  search_keyword :: string
  save_threshold :: int
  MAX_SCROLL_ATTEMPTS :: nat
  download_links :: "string list"
  total_saved_links :: nat
  url_dir :: "string \<rightharpoonup> string list"

text \<open>
  \<^verbatim>\<open>extract_download_links\<close> (lines 458-484). \<open>hrefs\<close> are the \<^verbatim>\<open>href\<close> attributes read
  before the block ends or raises (\<open>None\<close> for a button without one); an exception only cuts
  the list short, and the function returns the size of the set either way.
\<close>

fun add_hrefs :: "string list \<Rightarrow> string option list \<Rightarrow> string list" where
  "add_hrefs links [] = links"
| "add_hrefs links (None # hrefs) = add_hrefs links hrefs"
| "add_hrefs links (Some href # hrefs) =
     (if href \<noteq> [] \<and> href \<notin> set links then add_hrefs (links @ [href]) hrefs
      else add_hrefs links hrefs)"

definition extract_download_links :: "scraper \<Rightarrow> string option list \<Rightarrow> scraper \<times> nat" where
  "extract_download_links s hrefs =
     (let s' = s\<lparr>download_links := add_hrefs (download_links s) hrefs\<rparr>
      in (s', length (download_links s')))"

text \<open>
  \<^verbatim>\<open>save_links_to_file\<close> (lines 486-503). The counter is raised first, the file name is
  built from the new value, and the file is opened for appending. \<^verbatim>\<open>open\<close> or a
  \<^verbatim>\<open>write\<close> may raise; the \<^verbatim>\<open>except\<close> clause logs it and the counter keeps its new
  value. \<open>WriteFails k\<close> is a failure after \<open>k\<close> lines were written.
\<close>

datatype write_outcome = WriteOk | OpenFails | WriteFails nat

definition output_file :: "string \<Rightarrow> nat \<Rightarrow> string" where
  "output_file keyword n = ''./url/'' @ keyword @ ''_'' @ str_nat n @ ''.txt''"

definition append_lines :: "(string \<rightharpoonup> string list) \<Rightarrow> string \<Rightarrow> string list \<Rightarrow> (string \<rightharpoonup> string list)" where
  "append_lines d f ls = d(f \<mapsto> (case d f of None \<Rightarrow> [] | Some old \<Rightarrow> old) @ ls)"

definition save_links_to_file :: "scraper \<Rightarrow> write_outcome \<Rightarrow> scraper" where
  "save_links_to_file s io =
     (let new_total = total_saved_links s + length (download_links s);
          s1 = s\<lparr>total_saved_links := new_total\<rparr>;
          f = output_file (search_keyword s) new_total
      in case io of
           WriteOk \<Rightarrow> s1\<lparr>url_dir := append_lines (url_dir s) f (download_links s)\<rparr>
         | OpenFails \<Rightarrow> s1
         | WriteFails k \<Rightarrow> s1\<lparr>url_dir := append_lines (url_dir s) f (take k (download_links s))\<rparr>)"

subsection \<open>The main loop of run_load_more_flow (lines 519-547)\<close>

text \<open>
  What the environment gives to one iteration: the answers of the page to \<^verbatim>\<open>scroll_page\<close>,
  the \<^verbatim>\<open>href\<close>s that \<^verbatim>\<open>extract_download_links\<close> reads, and the fate of a write. The loop
  runs on a list of them. When the list ends before the loop does, the result says so
  (\<open>None\<close>) and carries the counters reached.
\<close>

record step_env =
  scroll :: "nat \<Rightarrow> scroll_try"
  hrefs :: "string option list"
  write_io :: write_outcome

datatype exit_reason = NoGrowth | Threshold | Ceiling

fun scroll_loop :: "scraper \<Rightarrow> nat \<Rightarrow> nat \<Rightarrow> step_env list \<Rightarrow> exit_reason option \<times> nat \<times> nat \<times> scraper" where
  "scroll_loop s scroll_count no_load_count envs =
     (if \<not> scroll_count < MAX_SCROLL_ATTEMPTS s then (Some Ceiling, scroll_count, no_load_count, s)
      else case envs of
        [] \<Rightarrow> (None, scroll_count, no_load_count, s)
      | e # rest \<Rightarrow>
         (let scroll_count' = scroll_count + 1;
              is_loaded = scroll_page (scroll e);
              no_load_count' = (if is_loaded then 0 else no_load_count + 1)
          in if no_load_count' \<ge> 3 then (Some NoGrowth, scroll_count', no_load_count', s)
             else
               (let (s1, current_count) = extract_download_links s (hrefs e)
                in if int current_count \<ge> save_threshold s1
                   then (Some Threshold, scroll_count', no_load_count',
                         (save_links_to_file s1 (write_io e))\<lparr>download_links := []\<rparr>)
                   else scroll_loop s1 scroll_count' no_load_count' rest)))"

text \<open>
  The end of \<^verbatim>\<open>start\<close> (lines 573-576): the \<^verbatim>\<open>finally\<close> clause saves the links when the
  set is not empty. It does not clear the set.
\<close>

definition session_end :: "scraper \<Rightarrow> write_outcome \<Rightarrow> scraper" where
  "session_end s io = (if download_links s \<noteq> [] then save_links_to_file s io else s)"

text \<open>
  The scraper as \<^verbatim>\<open>__init__\<close> builds it (lines 225-256), with nothing on disk yet.
\<close>

definition init_scraper :: "string \<Rightarrow> int \<Rightarrow> scraper" where
  "init_scraper keyword threshold =
     \<lparr>search_keyword = keyword, save_threshold = threshold, MAX_SCROLL_ATTEMPTS = 10000,
      download_links = [], total_saved_links = 0, url_dir = Map.empty\<rparr>"

text \<open>
  A simulated page for the loop: the page height is read once per scroll call, so that each
  call sees the height the previous call left as \<^verbatim>\<open>before_height\<close> and the next height of
  the sequence as \<^verbatim>\<open>after_height\<close>. No call raises and no link is found.
\<close>

definition height_steps :: "int list \<Rightarrow> step_env list" where
  "height_steps hs =
     map (\<lambda>(b, a). \<lparr>scroll = (\<lambda>_. Heights b a), hrefs = [], write_io = WriteOk\<rparr>) (zip hs (tl hs))"

text \<open>The link set after the extractions of the given iterations.\<close>

definition links_after :: "scraper \<Rightarrow> step_env list \<Rightarrow> string list" where
  "links_after s envs = add_hrefs (download_links s) (concat (map hrefs envs))"

text \<open>
  The number of links in the set after the extractions of the first \<open>j\<close> iterations:
  \<^verbatim>\<open>current_count\<close> at the end of iteration \<open>j\<close>.
\<close>

definition count_after :: "scraper \<Rightarrow> step_env list \<Rightarrow> nat \<Rightarrow> int" where
  "count_after s envs j = int (length (links_after s (take j envs)))"

text \<open>
  What the loop's result says about its exit, after \<open>k\<close> iterations: the break on three
  scrolls without growth (before the extraction of that iteration), the break on the save
  threshold, the \<^verbatim>\<open>while\<close> condition, or the end of the simulated input.
\<close>

definition exit_ok :: "scraper \<Rightarrow> step_env list \<Rightarrow> exit_reason option \<Rightarrow> nat \<Rightarrow> nat \<Rightarrow> nat \<Rightarrow> scraper \<Rightarrow> bool" where
  "exit_ok s envs r k sc' nl' s' =
     (case r of
        Some NoGrowth \<Rightarrow> nl' = 3 \<and> 0 < k \<and>
          s' = s\<lparr>download_links := links_after s (take (k - 1) envs)\<rparr>
      | Some Threshold \<Rightarrow> nl' < 3 \<and> 0 < k \<and> save_threshold s \<le> count_after s envs k
      | Some Ceiling \<Rightarrow> nl' < 3 \<and> sc' = MAX_SCROLL_ATTEMPTS s \<and>
          (0 < k \<longrightarrow> count_after s envs k < save_threshold s) \<and>
          s' = s\<lparr>download_links := links_after s (take k envs)\<rparr>
      | None \<Rightarrow> nl' < 3 \<and> sc' < MAX_SCROLL_ATTEMPTS s \<and> k = length envs \<and>
          (0 < k \<longrightarrow> count_after s envs k < save_threshold s) \<and>
          s' = s\<lparr>download_links := links_after s (take k envs)\<rparr>)"

text \<open>
  The counter of the loop, run over the results of the scroll calls (lines 528-531), and
  the results of the scroll calls of the first \<open>j\<close> iterations.
\<close>

definition tally :: "bool list \<Rightarrow> nat \<Rightarrow> nat" where
  "tally bs n = fold (\<lambda>b k. if b then 0 else k + 1) bs n"

definition loaded :: "step_env list \<Rightarrow> nat \<Rightarrow> bool list" where
  "loaded envs j = map (\<lambda>e. scroll_page (scroll e)) (take j envs)"


subsection \<open>RateLimiter (lines 70-101)\<close>

text \<open>
  Times are real numbers of seconds. \<^verbatim>\<open>request_times\<close> is the deque, oldest first.
\<close>

record rate_limiter =
  max_requests :: int
  time_window :: real
  request_times :: "real list"

text \<open>
  \<^verbatim>\<open>acquire\<close>. \<open>now\<close> is what \<^verbatim>\<open>time.time()\<close> returns at line 88. The clock is read again
  at line 101; that reading is \<open>now\<close>, plus the time slept, plus \<open>lag\<close>: whatever else went
  by between the two readings. The result carries the time the caller was suspended for by
  \<^verbatim>\<open>asyncio.sleep\<close>. Reading the head of an empty deque raises \<^verbatim>\<open>IndexError\<close>.
\<close>

definition acquire :: "rate_limiter \<Rightarrow> real \<Rightarrow> real \<Rightarrow> py_exception + rate_limiter \<times> real" where
  "acquire rl now lag =
     (let q = dropWhile (\<lambda>t. t < now - time_window rl) (request_times rl)
      in if int (length q) \<ge> max_requests rl then
           (case q of
              [] \<Rightarrow> Inl IndexError
            | oldest # _ \<Rightarrow>
                (let sleep_time = time_window rl - (now - oldest) + 1 / 10;
                     slept = (if sleep_time > 0 then sleep_time else 0)
                 in Inr (rl\<lparr>request_times := q @ [now + slept + lag]\<rparr>, slept)))
         else Inr (rl\<lparr>request_times := q @ [now + lag]\<rparr>, 0))"

text \<open>
  A sequence of calls, one after the other as the scraper makes them. Each call is given by
  \<open>gap\<close>, the time between the end of the call before and its own first reading of the
  clock, and its \<open>lag\<close>. The result lists the times at which the calls were admitted, that
  is the timestamps they recorded, in order.
\<close>

fun acquire_calls :: "rate_limiter \<Rightarrow> real \<Rightarrow> (real \<times> real) list \<Rightarrow>
    py_exception + rate_limiter \<times> real \<times> real list" where
  "acquire_calls rl clock [] = Inr (rl, clock, [])"
| "acquire_calls rl clock ((gap, lag) # calls) =
     (case acquire rl (clock + gap) lag of
        Inl e \<Rightarrow> Inl e
      | Inr (rl', slept) \<Rightarrow>
          (case acquire_calls rl' (clock + gap + slept + lag) calls of
             Inl e \<Rightarrow> Inl e
           | Inr (rl'', clock', admitted) \<Rightarrow>
               Inr (rl'', clock', (clock + gap + slept + lag) # admitted)))"

text \<open>The number of admissions in the closed interval of length \<open>w\<close> that starts at \<open>a\<close>.\<close>

definition admitted_within :: "real \<Rightarrow> real \<Rightarrow> real list \<Rightarrow> nat" where
  "admitted_within a w ts = length (filter (\<lambda>t. a \<le> t \<and> t \<le> a + w) ts)"

text \<open>
  The invariant of a run: \<open>H\<close> lists the admissions so far, in order, and \<open>c\<close> is the clock.
  The deque is the end of \<open>H\<close>; what was dropped from it is older than the window; after a
  call that slept the deque holds one timestamp more than \<^verbatim>\<open>max_requests\<close>, and its head
  has left the window.
\<close>

definition limiter_inv :: "rate_limiter \<Rightarrow> real \<Rightarrow> real list \<Rightarrow> bool" where
  "limiter_inv rl c H \<longleftrightarrow>
     sorted H \<and> (\<forall>t\<in>set H. t \<le> c) \<and>
     (\<exists>P. H = P @ request_times rl \<and> (\<forall>t\<in>set P. t < c - time_window rl)) \<and>
     (length (request_times rl) \<le> nat (max_requests rl) \<or>
      (length (request_times rl) = nat (max_requests rl) + 1 \<and> hd (request_times rl) < c - time_window rl)) \<and>
     (\<forall>a. admitted_within a (time_window rl) H \<le> nat (max_requests rl))"


section \<open>download.py: the download manager\<close>

subsection \<open>Python strings and paths\<close>

text \<open>
  A Python string is a list of characters; a character stands for a code point below 256.
  \<^verbatim>\<open>str.strip()\<close> removes white space at both ends: the code points 9 to 13, 28 to 32,
  133 and 160 among those.
\<close>

definition is_space :: "char \<Rightarrow> bool" where
  "is_space c = (of_char c \<in> {9, 10, 11, 12, 13, 28, 29, 30, 31, 32, 133, 160 :: nat})"

definition strip_chars :: "(char \<Rightarrow> bool) \<Rightarrow> string \<Rightarrow> string" where
  "strip_chars p s = rev (dropWhile p (rev (dropWhile p s)))"

definition strip :: "string \<Rightarrow> string" where
  "strip s = strip_chars is_space s"

text \<open>\<^verbatim>\<open>.strip('"\'')\<close>: the double and the single quote are removed at both ends.\<close>

definition is_quote :: "char \<Rightarrow> bool" where
  "is_quote c = (c = CHR 0x22 \<or> c = CHR 0x27)"

definition strip_quotes :: "string \<Rightarrow> string" where
  "strip_quotes s = strip_chars is_quote s"

text \<open>\<^verbatim>\<open>s.split(d)\<close> for a separator of one character.\<close>

fun split_on :: "char \<Rightarrow> string \<Rightarrow> string list" where
  "split_on d [] = [[]]"
| "split_on d (c # cs) =
     (if c = d then [] # split_on d cs
      else (case split_on d cs of x # xs \<Rightarrow> (c # x) # xs | [] \<Rightarrow> [[c]]))"

text \<open>
  \<^verbatim>\<open>os.path.join(a, b)\<close> and \<^verbatim>\<open>Path(p).name\<close> on a POSIX system: an absolute second
  argument replaces the first; the name is the last component of the path, where empty
  components and single dots do not count.
\<close>

definition path_join :: "string \<Rightarrow> string \<Rightarrow> string" where
  "path_join a b =
     (if b \<noteq> [] \<and> hd b = CHR ''/'' then b
      else if a = [] \<or> last a = CHR ''/'' then a @ b
      else a @ ''/'' @ b)"

definition path_name :: "string \<Rightarrow> string" where
  "path_name p =
     (case filter (\<lambda>x. x \<noteq> [] \<and> x \<noteq> ''.'') (split_on CHR ''/'' p) of
        [] \<Rightarrow> []
      | x # xs \<Rightarrow> last (x # xs))"

text \<open>
  Library functions the code calls and this development does not define:
  \<^verbatim>\<open>urllib.parse.unquote\<close>, the \<^verbatim>\<open>path\<close> of \<^verbatim>\<open>urllib.parse.urlparse\<close>, and the
  hexadecimal MD5 digest of a string. They are parameters of the model.
\<close>

record pylib =
  unquote :: "string \<Rightarrow> string"
  urlparse_path :: "string \<Rightarrow> string"
  md5_hexdigest :: "string \<Rightarrow> string"

subsection \<open>The two regular expressions of _extract_filename_from_response\<close>

text \<open>
  Both patterns end in \<^verbatim>\<open>(.+?)(?:;|$)\<close>, or in \<^verbatim>\<open>(.+?)\1(?:;|$)\<close> after an opening quote.
  The dot matches any character but the newline; \<^verbatim>\<open>$\<close> matches at the end of the string
  and before a newline that ends the string. The group is lazy: it is the shortest run of
  at least one character after which the rest of the pattern matches.
\<close>

definition newline :: char where
  "newline = CHR 0x0A"

definition at_terminator :: "string \<Rightarrow> bool" where
  "at_terminator s = (s = [] \<or> s = [newline] \<or> hd s = CHR '';'')"

fun lazy_more :: "string \<Rightarrow> string option" where
  "lazy_more [] = Some []"
| "lazy_more (c # cs) =
     (if at_terminator (c # cs) then Some []
      else if c = newline then None
      else map_option ((#) c) (lazy_more cs))"

definition lazy_group :: "string \<Rightarrow> string option" where
  "lazy_group s =
     (case s of
        [] \<Rightarrow> None
      | c # cs \<Rightarrow> if c = newline then None else map_option ((#) c) (lazy_more cs))"

fun quoted_more :: "char \<Rightarrow> string \<Rightarrow> string option" where
  "quoted_more q [] = None"
| "quoted_more q (c # cs) =
     (if c = q \<and> at_terminator cs then Some []
      else if c = newline then None
      else map_option ((#) c) (quoted_more q cs))"

definition quoted_group :: "char \<Rightarrow> string \<Rightarrow> string option" where
  "quoted_group q s =
     (case s of
        [] \<Rightarrow> None
      | c # cs \<Rightarrow> if c = newline then None else map_option ((#) c) (quoted_more q cs))"

fun strip_prefix :: "string \<Rightarrow> string \<Rightarrow> string option" where
  "strip_prefix [] s = Some s"
| "strip_prefix (p # ps) [] = None"
| "strip_prefix (p # ps) (c # cs) = (if p = c then strip_prefix ps cs else None)"

text \<open>
  \<^verbatim>\<open>filename\*=(?:UTF-8'')?(.+?)(?:;|$)\<close> matched at the start of \<open>s\<close>: group 1. The
  optional prefix is tried first and given up when the rest does not match with it.
\<close>

definition match_extended :: "string \<Rightarrow> string option" where
  "match_extended s =
     (case strip_prefix ''filename*='' s of
        None \<Rightarrow> None
      | Some r \<Rightarrow>
          (case (case strip_prefix (''UTF-8'' @ [CHR 0x27, CHR 0x27]) r of
                   Some r' \<Rightarrow> lazy_group r'
                 | None \<Rightarrow> None) of
             Some g \<Rightarrow> Some g
           | None \<Rightarrow> lazy_group r))"

text \<open>
  \<^verbatim>\<open>filename=(["\']?)(.+?)\1(?:;|$)\<close> matched at the start of \<open>s\<close>: group 2. An opening
  quote is tried as group 1 first, and given up when no closing quote before a terminator
  follows.
\<close>

definition match_basic :: "string \<Rightarrow> string option" where
  "match_basic s =
     (case strip_prefix ''filename='' s of
        None \<Rightarrow> None
      | Some r \<Rightarrow>
          (case (case r of
                   [] \<Rightarrow> None
                 | c # cs \<Rightarrow> if is_quote c then quoted_group c cs else None) of
             Some g \<Rightarrow> Some g
           | None \<Rightarrow> lazy_group r))"

text \<open>\<^verbatim>\<open>re.search\<close>: the match at the leftmost position that has one.\<close>

fun re_search :: "(string \<Rightarrow> string option) \<Rightarrow> string \<Rightarrow> string option" where
  "re_search m [] = m []"
| "re_search m (c # cs) = (case m (c # cs) of Some g \<Rightarrow> Some g | None \<Rightarrow> re_search m cs)"

subsection \<open>_extract_filename_from_response (lines 151-190)\<close>

text \<open>
  The headers of a response are a map from header names to values. The first two steps
  read \<^verbatim>\<open>Content-Disposition\<close>; each returns when its pattern matches and the file name
  is not empty.
\<close>

definition ext_map :: "string \<rightharpoonup> string" where
  "ext_map =
     [''image/jpeg'' \<mapsto> ''.jpg'', ''image/png'' \<mapsto> ''.png'', ''image/gif'' \<mapsto> ''.gif'',
      ''image/webp'' \<mapsto> ''.webp'', ''image/svg+xml'' \<mapsto> ''.svg'',
      ''application/octet-stream'' \<mapsto> ''.bin'']"

definition header :: "(string \<rightharpoonup> string) \<Rightarrow> string \<Rightarrow> string" where
  "header headers name = (case headers name of None \<Rightarrow> [] | Some v \<Rightarrow> v)"

definition filename_extended :: "pylib \<Rightarrow> string \<Rightarrow> string option" where
  "filename_extended L content_disposition =
     (case re_search match_extended content_disposition of
        None \<Rightarrow> None
      | Some g \<Rightarrow>
          (let filename = unquote L g
           in if filename \<noteq> [] then Some (strip_quotes filename) else None))"

definition filename_basic :: "string \<Rightarrow> string option" where
  "filename_basic content_disposition =
     (case re_search match_basic content_disposition of
        None \<Rightarrow> None
      | Some filename \<Rightarrow> if filename \<noteq> [] then Some (strip_quotes filename) else None)"

definition filename_from_url :: "pylib \<Rightarrow> string \<Rightarrow> string option" where
  "filename_from_url L url =
     (let filename = path_name (urlparse_path L url)
      in if filename \<noteq> [] \<and> CHR ''.'' \<in> set filename then Some (unquote L filename) else None)"

definition filename_from_type :: "pylib \<Rightarrow> (string \<rightharpoonup> string) \<Rightarrow> string \<Rightarrow> string" where
  "filename_from_type L headers url =
     (let content_type = hd (split_on CHR '';'' (header headers ''Content-Type''));
          ext = (case ext_map content_type of Some e \<Rightarrow> e | None \<Rightarrow> ''.tmp'');
          url_hash = take 8 (md5_hexdigest L url)
      in url_hash @ ext)"

definition extract_filename_from_response :: "pylib \<Rightarrow> (string \<rightharpoonup> string) \<Rightarrow> string \<Rightarrow> string" where
  "extract_filename_from_response L headers url =
     (let content_disposition = header headers ''Content-Disposition''
      in case (if content_disposition \<noteq> [] then
                 (case filename_extended L content_disposition of
                    Some f \<Rightarrow> Some f
                  | None \<Rightarrow> filename_basic content_disposition)
               else None) of
           Some f \<Rightarrow> f
         | None \<Rightarrow>
             (case filename_from_url L url of
                Some f \<Rightarrow> f
              | None \<Rightarrow> filename_from_type L headers url))"


subsection \<open>The manager, the file system and the network\<close>

text \<open>
  The world outside the manager: the regular files on disk with their content (a directory
  is not a file of this map); the requests sent so far, in order, each \<^verbatim>\<open>GET\<close> with the
  offset of its \<^verbatim>\<open>Range\<close> header if it has one; the back-off sleeps, in order; the
  \<^verbatim>\<open>*.txt\<close> files of the URL folder as (stem, lines), or \<open>None\<close> when the folder does not
  exist; and the mapping document on disk with the number of times it was written.
\<close>

datatype request = Head string | Get string "nat option"

record world =
  files :: "string \<rightharpoonup> string"
  requests :: "request list"
  waits :: "real list"
  url_folder_files :: "(string \<times> string list) list option"
  mapping_document :: "(string \<rightharpoonup> string) option"
  mapping_saves :: nat

record manager =
  download_folder :: string
  enable_proxy :: bool
  proxy_list :: "string list"
  current_proxy_index :: nat
  url_mapping :: "string \<rightharpoonup> string"

text \<open>
  What the network answers to the requests of one call of \<^verbatim>\<open>download_with_retry\<close>, by
  attempt number. A \<^verbatim>\<open>HEAD\<close> gives headers or raises (\<^verbatim>\<open>raise_for_status\<close> included).
  A \<^verbatim>\<open>GET\<close>, which the server sees with its range offset, raises before anything is
  written, or delivers bytes that are appended to the temporary file, after which the
  block may still raise: a connection that breaks in the middle of the stream, or a write
  that fails. \<open>jitter\<close> is the value \<^verbatim>\<open>random.uniform(0, 1)\<close> takes after each attempt.
\<close>

datatype head_answer = HeadOk "string \<rightharpoonup> string" | HeadRaises py_exception

datatype get_answer = GetRaises py_exception | GetStream string "py_exception option"

record server =
  on_head :: "nat \<Rightarrow> head_answer"
  on_get :: "nat \<Rightarrow> nat option \<Rightarrow> get_answer"
  jitter :: "nat \<Rightarrow> real"

text \<open>\<^verbatim>\<open>_get_next_proxy\<close> (lines 130-139).\<close>

definition get_next_proxy :: "manager \<Rightarrow> string option \<times> manager" where
  "get_next_proxy m =
     (if \<not> enable_proxy m \<or> proxy_list m = [] then (None, m)
      else (Some (proxy_list m ! (current_proxy_index m mod length (proxy_list m))),
            m\<lparr>current_proxy_index := current_proxy_index m + 1\<rparr>))"

subsection \<open>download_with_retry (lines 195-274)\<close>

text \<open>
  The first part of the \<^verbatim>\<open>try\<close> block (lines 208-225), run while \<^verbatim>\<open>temp_path\<close> is
  \<^verbatim>\<open>None\<close>: the \<^verbatim>\<open>HEAD\<close> request gives the file name, and with it \<^verbatim>\<open>local_path\<close> and
  \<^verbatim>\<open>temp_path\<close>. The pacing delay of line 205 only takes time and is left out.
\<close>

definition probe :: "pylib \<Rightarrow> server \<Rightarrow> string \<Rightarrow> string \<Rightarrow> nat \<Rightarrow> manager \<times> world \<Rightarrow>
    (py_exception + string \<times> string) \<times> manager \<times> world" where
  "probe L srv url keyword_dir attempt mw =
     (case mw of (m, w) \<Rightarrow>
        (let m1 = snd (get_next_proxy m);
             w1 = w\<lparr>requests := requests w @ [Head url]\<rparr>
         in case on_head srv attempt of
              HeadRaises e \<Rightarrow> (Inl e, m1, w1)
            | HeadOk hs \<Rightarrow>
                (let filename = extract_filename_from_response L hs url;
                     local_path = path_join keyword_dir filename;
                     temp_path = local_path @ ''.tmp''
                 in (Inr (local_path, temp_path), m1, w1))))"

text \<open>
  The second part (lines 227-256): the \<^verbatim>\<open>Range\<close> header when the temporary file exists,
  the \<^verbatim>\<open>GET\<close> request, the chunks appended to the temporary file (which \<^verbatim>\<open>open\<close> in
  mode \<^verbatim>\<open>ab\<close> creates when it is not there), and the move to \<^verbatim>\<open>local_path\<close>.
\<close>

definition fetch :: "server \<Rightarrow> string \<Rightarrow> nat \<Rightarrow> string \<times> string \<Rightarrow> manager \<times> world \<Rightarrow>
    (py_exception + string) \<times> manager \<times> world" where
  "fetch srv url attempt paths mw =
     (case (paths, mw) of ((local_path, temp_path), (m, w)) \<Rightarrow>
        (let resume = map_option length (files w temp_path);
             m1 = snd (get_next_proxy m);
             w1 = w\<lparr>requests := requests w @ [Get url resume]\<rparr>
         in case on_get srv attempt resume of
              GetRaises e \<Rightarrow> (Inl e, m1, w1)
            | GetStream chunks err \<Rightarrow>
                (let content = (case files w1 temp_path of None \<Rightarrow> [] | Some c \<Rightarrow> c) @ chunks;
                     w2 = w1\<lparr>files := (files w1)(temp_path \<mapsto> content)\<rparr>
                 in case err of
                      Some e \<Rightarrow> (Inl e, m1, w2)
                    | None \<Rightarrow>
                        (Inr local_path, m1,
                         w2\<lparr>files := ((files w2)(temp_path := None))(local_path \<mapsto> content)\<rparr>))))"

text \<open>
  The whole \<^verbatim>\<open>try\<close> block of one attempt. \<open>paths\<close> holds \<^verbatim>\<open>local_path\<close> and
  \<^verbatim>\<open>temp_path\<close> once they are set. The result is the path returned or the exception raised.
\<close>

definition attempt_body :: "pylib \<Rightarrow> server \<Rightarrow> string \<Rightarrow> string \<Rightarrow> nat \<Rightarrow> (string \<times> string) option \<Rightarrow>
    manager \<times> world \<Rightarrow> (py_exception + string) \<times> (string \<times> string) option \<times> manager \<times> world" where
  "attempt_body L srv url keyword_dir attempt paths mw =
     (case paths of
        Some p \<Rightarrow> (case fetch srv url attempt p mw of (r, mw') \<Rightarrow> (r, Some p, mw'))
      | None \<Rightarrow>
          (case probe L srv url keyword_dir attempt mw of
             (Inl e, mw') \<Rightarrow> (Inl e, None, mw')
           | (Inr p, mw') \<Rightarrow>
               (case fetch srv url attempt p mw' of (r, mw'') \<Rightarrow> (r, Some p, mw''))))"

text \<open>The \<^verbatim>\<open>except\<close> clause (lines 258-272): the wait before the next attempt.\<close>

definition backoff_base :: "nat \<Rightarrow> nat" where
  "backoff_base attempt = 2 ^ min attempt 5"

definition wait_time :: "server \<Rightarrow> nat \<Rightarrow> real" where
  "wait_time srv attempt = real (backoff_base attempt) + jitter srv attempt"

definition retry_after :: "server \<Rightarrow> nat \<Rightarrow> manager \<times> world \<Rightarrow> manager \<times> world" where
  "retry_after srv attempt mw =
     (case mw of (m, w) \<Rightarrow>
        (if enable_proxy m \<and> proxy_list m \<noteq> []
         then m\<lparr>current_proxy_index := current_proxy_index m + 1\<rparr> else m,
         w\<lparr>waits := waits w @ [wait_time srv attempt]\<rparr>))"

definition remove_temp :: "(string \<times> string) option \<Rightarrow> world \<Rightarrow> world" where
  "remove_temp paths w =
     (case paths of
        None \<Rightarrow> w
      | Some (local_path, temp_path) \<Rightarrow> w\<lparr>files := (files w)(temp_path := None)\<rparr>)"

text \<open>
  The loop \<^verbatim>\<open>for attempt in range(max_retries)\<close>. Only a \<^verbatim>\<open>RequestException\<close> is
  caught; any other exception leaves the function. The result is \<open>Inr (Some path)\<close> for a
  returned path, \<open>Inr None\<close> for \<^verbatim>\<open>None\<close>, and \<open>Inl e\<close> for an exception that escapes;
  with it come the paths as last set, the manager and the world.
\<close>

function download_loop :: "pylib \<Rightarrow> server \<Rightarrow> string \<Rightarrow> string \<Rightarrow> int \<Rightarrow> nat \<Rightarrow>
    (string \<times> string) option \<Rightarrow> manager \<times> world \<Rightarrow>
    (py_exception + string option) \<times> (string \<times> string) option \<times> manager \<times> world" where
  "download_loop L srv url keyword_dir max_retries attempt paths mw =
     (if int attempt < max_retries then
        (case attempt_body L srv url keyword_dir attempt paths mw of
           (Inr local_path, paths', mw') \<Rightarrow> (Inr (Some local_path), paths', mw')
         | (Inl e, paths', mw') \<Rightarrow>
             (if e = RequestException then
                (if int attempt < max_retries - 1
                 then download_loop L srv url keyword_dir max_retries (attempt + 1) paths'
                        (retry_after srv attempt mw')
                 else (Inr None, paths', fst mw', remove_temp paths' (snd mw')))
              else (Inl e, paths', mw')))
      else (Inr None, paths, mw))"
  by pat_completeness auto
termination
  by (relation "measure (\<lambda>(L, srv, url, keyword_dir, max_retries, attempt, paths, mw).
        nat (max_retries - int attempt))") auto

definition download_with_retry :: "pylib \<Rightarrow> server \<Rightarrow> string \<Rightarrow> string \<Rightarrow> int \<Rightarrow> manager \<times> world \<Rightarrow>
    (py_exception + string option) \<times> (string \<times> string) option \<times> manager \<times> world" where
  "download_with_retry L srv url keyword_dir max_retries mw =
     download_loop L srv url keyword_dir max_retries 0 None mw"

subsection \<open>_process_single_url (lines 276-302)\<close>

text \<open>
  The result is \<open>None\<close> when the function returns and \<open>Some e\<close> when an exception leaves
  it. \<^verbatim>\<open>download_with_retry\<close> is called with its default of 10 retries;
  \<open>after_download\<close> is what follows the call (lines 298-302): the mapping gets the new
  path when one was returned.
\<close>

definition after_download :: "string \<Rightarrow>
    (py_exception + string option) \<times> (string \<times> string) option \<times> manager \<times> world \<Rightarrow>
    py_exception option \<times> manager \<times> world" where
  "after_download url res =
     (case res of
        (Inl e, paths, m', w') \<Rightarrow> (Some e, m', w')
      | (Inr None, paths, m', w') \<Rightarrow> (None, m', w')
      | (Inr (Some local_path), paths, m', w') \<Rightarrow>
          if local_path \<noteq> []
          then (None, m'\<lparr>url_mapping := (url_mapping m')(url \<mapsto> local_path)\<rparr>, w')
          else (None, m', w'))"

definition process_single_url :: "pylib \<Rightarrow> server \<Rightarrow> string \<Rightarrow> string \<Rightarrow> manager \<times> world \<Rightarrow>
    py_exception option \<times> manager \<times> world" where
  "process_single_url L srv url0 keyword_dir mw =
     (case mw of (m, w) \<Rightarrow>
        if strip url0 = [] then (None, m, w)
        else
          (let url = strip url0
           in case (case url_mapping m url of
                      None \<Rightarrow> None
                    | Some source_file \<Rightarrow>
                        (case files w source_file of
                           None \<Rightarrow> None
                         | Some content \<Rightarrow> Some (source_file, content))) of
                Some (source_file, content) \<Rightarrow>
                  (let target_file = path_join keyword_dir (path_name source_file)
                   in (None, m,
                       if files w target_file = None
                       then w\<lparr>files := (files w)(target_file \<mapsto> content)\<rparr> else w))
              | None \<Rightarrow>
                  after_download url (download_with_retry L srv url keyword_dir 10 (m, w))))"

subsection \<open>process_all (lines 304-346)\<close>






subsection \<open>The manager at start\<close>

text \<open>
  The manager as \<^verbatim>\<open>__init__\<close> builds it with its default arguments (lines 33-62): no
  proxy, and the mapping loaded from the mapping document when there is one
  (\<^verbatim>\<open>_load_mapping\<close>, lines 141-145).
\<close>

definition init_manager :: "world \<Rightarrow> manager" where
  "init_manager w =
     \<lparr>download_folder = ''download'', enable_proxy = False, proxy_list = [],
      current_proxy_index = 0,
      url_mapping = (case mapping_document w of None \<Rightarrow> Map.empty | Some d \<Rightarrow> d)\<rparr>"

definition empty_world :: world where
  "empty_world =
     \<lparr>files = Map.empty, requests = [], waits = [], url_folder_files = None,
      mapping_document = None, mapping_saves = 0\<rparr>"


subsection \<open>A server that honours range requests\<close>

text \<open>
  The temporary path that \<^verbatim>\<open>download_with_retry\<close> computes from the headers of the probe
  (lines 223-225).
\<close>

definition temp_path_for :: "pylib \<Rightarrow> (string \<rightharpoonup> string) \<Rightarrow> string \<Rightarrow> string \<Rightarrow> string" where
  "temp_path_for L hs url keyword_dir =
     path_join keyword_dir (extract_filename_from_response L hs url) @ ''.tmp''"

text \<open>
  The server serves the resource \<open>content\<close>, whose length is the content length it
  advertises: a \<^verbatim>\<open>GET\<close> with the range offset \<open>s\<close> is answered with bytes of the resource
  from \<open>s\<close> on, a \<^verbatim>\<open>GET\<close> without range with bytes from the start, and a stream that
  ends without an exception has delivered all of them.
\<close>

definition range_offset :: "nat option \<Rightarrow> nat" where
  "range_offset r = (case r of None \<Rightarrow> 0 | Some s \<Rightarrow> s)"

definition serves :: "server \<Rightarrow> string \<Rightarrow> bool" where
  "serves srv content \<longleftrightarrow>
     (\<forall>k r chunks err. on_get srv k r = GetStream chunks err \<longrightarrow>
        prefix chunks (drop (range_offset r) content) \<and>
        (err = None \<longrightarrow> chunks = drop (range_offset r) content))"

text \<open>The temporary file is absent, or holds the first bytes of the resource.\<close>

definition resumable :: "string \<Rightarrow> (string \<rightharpoonup> string) \<Rightarrow> string \<Rightarrow> bool" where
  "resumable content fs temp_path =
     (case fs temp_path of None \<Rightarrow> True | Some c \<Rightarrow> prefix c content)"

definition resume_inv :: "pylib \<Rightarrow> server \<Rightarrow> string \<Rightarrow> string \<Rightarrow> string \<Rightarrow>
    (string \<times> string) option \<Rightarrow> world \<Rightarrow> bool" where
  "resume_inv L srv url keyword_dir content paths w =
     (case paths of
        Some (local_path, temp_path) \<Rightarrow>
          temp_path \<noteq> local_path \<and> resumable content (files w) temp_path
      | None \<Rightarrow>
          (\<forall>k hs. on_head srv k = HeadOk hs \<longrightarrow>
             resumable content (files w) (temp_path_for L hs url keyword_dir)))"


section \<open>Properties of the link-discovery engine\<close>

subsection \<open>The main loop\<close>

lemma scroll_loop_ceiling:
  "\<not> sc < MAX_SCROLL_ATTEMPTS s \<Longrightarrow> scroll_loop s sc nl envs = (Some Ceiling, sc, nl, s)"
  by simp

lemma scroll_loop_Nil:
  "sc < MAX_SCROLL_ATTEMPTS s \<Longrightarrow> scroll_loop s sc nl [] = (None, sc, nl, s)"
  by simp

lemma scroll_loop_Cons:
  "sc < MAX_SCROLL_ATTEMPTS s \<Longrightarrow> scroll_loop s sc nl (e # rest) =
    (let nl' = (if scroll_page (scroll e) then 0 else nl + 1) in
     if nl' \<ge> 3 then (Some NoGrowth, sc + 1, nl', s)
     else let s1 = s\<lparr>download_links := add_hrefs (download_links s) (hrefs e)\<rparr> in
       if int (length (download_links s1)) \<ge> save_threshold s
       then (Some Threshold, sc + 1, nl', (save_links_to_file s1 (write_io e))\<lparr>download_links := []\<rparr>)
       else scroll_loop s1 (sc + 1) nl' rest)"
  by (simp add: Let_def extract_download_links_def)

declare scroll_loop.simps [simp del]

lemma add_hrefs_append: "add_hrefs ls (xs @ ys) = add_hrefs (add_hrefs ls xs) ys"
  by (induction ls xs rule: add_hrefs.induct) auto

lemma tally_Nil: "tally [] n = n"
  by (simp add: tally_def)

lemma tally_Cons: "tally (b # bs) n = tally bs (if b then 0 else n + 1)"
  by (simp add: tally_def)

lemma tally_snoc: "tally (bs @ [b]) n = (if b then 0 else tally bs n + 1)"
  by (simp add: tally_def)

text \<open>
  Started at zero, the counter is the number of scroll calls without growth at the end of
  the calls made: any growth sets it back to zero.
\<close>

lemma tally_trailing: "tally bs 0 = length (takeWhile Not (rev bs))"
proof (induction bs rule: rev_induct)
  case Nil
  show ?case by (simp add: tally_Nil)
next
  case (snoc b bs)
  then show ?case by (simp add: tally_snoc)
qed

lemma links_after_Cons:
  "links_after s (e # xs) =
   links_after (s\<lparr>download_links := add_hrefs (download_links s) (hrefs e)\<rparr>) xs"
  by (simp add: links_after_def add_hrefs_append)

lemma loaded_0: "loaded envs 0 = []"
  by (simp add: loaded_def)

lemma loaded_Suc: "loaded (e # rest) (Suc j) = scroll_page (scroll e) # loaded rest j"
  by (simp add: loaded_def)

lemma count_after_0: "count_after s envs 0 = int (length (download_links s))"
  by (simp add: count_after_def links_after_def)

lemma count_after_Suc:
  "count_after s (e # rest) (Suc j) =
   count_after (s\<lparr>download_links := add_hrefs (download_links s) (hrefs e)\<rparr>) rest j"
  by (simp add: count_after_def links_after_Cons)

lemma links_after_Nil: "links_after s [] = download_links s"
  by (simp add: links_after_def)

lemma loop_inv:
  "scroll_loop s sc nl envs = (r, sc', nl', s') \<Longrightarrow> nl < 3 \<Longrightarrow> sc \<le> MAX_SCROLL_ATTEMPTS s \<Longrightarrow>
   \<exists>k. sc' = sc + k \<and> k \<le> length envs \<and> sc' \<le> MAX_SCROLL_ATTEMPTS s \<and>
       nl' = tally (loaded envs k) nl \<and>
       (\<forall>j. 0 < j \<and> j < k \<longrightarrow>
          tally (loaded envs j) nl < 3 \<and> count_after s envs j < save_threshold s) \<and>
       exit_ok s envs r k sc' nl' s'"
proof (induction envs arbitrary: s sc nl)
  case Nil
  then have "sc' = sc + 0 \<and> 0 \<le> length ([]::step_env list) \<and> sc' \<le> MAX_SCROLL_ATTEMPTS s \<and>
       nl' = tally (loaded [] 0) nl \<and>
       (\<forall>j. 0 < j \<and> j < 0 \<longrightarrow>
          tally (loaded [] j) nl < 3 \<and> count_after s [] j < save_threshold s) \<and>
       exit_ok s [] r 0 sc' nl' s'"
    by (cases "sc < MAX_SCROLL_ATTEMPTS s")
       (auto simp: scroll_loop_Nil scroll_loop_ceiling exit_ok_def tally_Nil loaded_0 links_after_Nil)
  then show ?case by blast
next
  case (Cons e rest)
  show ?case
  proof (cases "sc < MAX_SCROLL_ATTEMPTS s")
    case False
    with Cons.prems have "sc' = sc + 0 \<and> 0 \<le> length (e # rest) \<and> sc' \<le> MAX_SCROLL_ATTEMPTS s \<and>
       nl' = tally (loaded (e # rest) 0) nl \<and>
       (\<forall>j. 0 < j \<and> j < 0 \<longrightarrow>
          tally (loaded (e # rest) j) nl < 3 \<and> count_after s (e # rest) j < save_threshold s) \<and>
       exit_ok s (e # rest) r 0 sc' nl' s'"
      by (auto simp: scroll_loop_ceiling exit_ok_def tally_Nil loaded_0 links_after_Nil)
    then show ?thesis by blast
  next
    case lt: True
    let ?nl = "if scroll_page (scroll e) then 0 else nl + 1"
    let ?s1 = "s\<lparr>download_links := add_hrefs (download_links s) (hrefs e)\<rparr>"
    show ?thesis
    proof (cases "?nl \<ge> 3")
      case True
      with lt Cons.prems have res: "r = Some NoGrowth" "sc' = sc + 1" "nl' = ?nl" "s' = s"
        by (auto simp: scroll_loop_Cons Let_def split: if_splits)
      from True Cons.prems(2) have "?nl = 3" by (auto split: if_splits)
      with res lt have "sc' = sc + 1 \<and> 1 \<le> length (e # rest) \<and> sc' \<le> MAX_SCROLL_ATTEMPTS s \<and>
       nl' = tally (loaded (e # rest) 1) nl \<and>
       (\<forall>j. 0 < j \<and> j < 1 \<longrightarrow>
          tally (loaded (e # rest) j) nl < 3 \<and> count_after s (e # rest) j < save_threshold s) \<and>
       exit_ok s (e # rest) r 1 sc' nl' s'"
        by (simp add: exit_ok_def tally_Nil tally_Cons loaded_0 loaded_Suc links_after_Nil)
      then show ?thesis by blast
    next
      case nl3: False
      show ?thesis
      proof (cases "int (length (download_links ?s1)) \<ge> save_threshold s")
        case True
        with nl3 lt Cons.prems have res: "r = Some Threshold" "sc' = sc + 1" "nl' = ?nl"
          by (auto simp: scroll_loop_Cons Let_def split: if_splits)
        have "count_after s (e # rest) 1 = int (length (download_links ?s1))"
          using count_after_Suc[of s e rest 0] by (simp add: count_after_0)
        with res lt nl3 True
        have "sc' = sc + 1 \<and> 1 \<le> length (e # rest) \<and> sc' \<le> MAX_SCROLL_ATTEMPTS s \<and>
       nl' = tally (loaded (e # rest) 1) nl \<and>
       (\<forall>j. 0 < j \<and> j < 1 \<longrightarrow>
          tally (loaded (e # rest) j) nl < 3 \<and> count_after s (e # rest) j < save_threshold s) \<and>
       exit_ok s (e # rest) r 1 sc' nl' s'"
          by (simp add: exit_ok_def tally_Nil tally_Cons loaded_0 loaded_Suc)
        then show ?thesis by blast
      next
        case below: False
        with nl3 lt Cons.prems have rec: "scroll_loop ?s1 (sc + 1) ?nl rest = (r, sc', nl', s')"
          by (auto simp: scroll_loop_Cons Let_def split: if_splits)
        have nl1: "?nl < 3" using nl3 by simp
        moreover have "sc + 1 \<le> MAX_SCROLL_ATTEMPTS ?s1" using lt by simp
        ultimately obtain k where k: "sc' = sc + 1 + k" "k \<le> length rest"
          "sc' \<le> MAX_SCROLL_ATTEMPTS ?s1"
          "nl' = tally (loaded rest k) ?nl"
          "\<forall>j. 0 < j \<and> j < k \<longrightarrow>
             tally (loaded rest j) ?nl < 3 \<and> count_after ?s1 rest j < save_threshold ?s1"
          "exit_ok ?s1 rest r k sc' nl' s'"
          using Cons.IH[OF rec] by blast
        have c0: "count_after ?s1 rest 0 < save_threshold s"
          using below by (simp add: count_after_0)
        have earlier: "\<forall>j. 0 < j \<and> j < Suc k \<longrightarrow>
            tally (loaded (e # rest) j) nl < 3 \<and> count_after s (e # rest) j < save_threshold s"
        proof (intro allI impI)
          fix j :: nat
          assume "0 < j \<and> j < Suc k"
          then obtain i where i: "j = Suc i" "i < k" by (cases j) auto
          show "tally (loaded (e # rest) j) nl < 3 \<and> count_after s (e # rest) j < save_threshold s"
          proof (cases "i = 0")
            case True
            with i nl1 c0 show ?thesis
              by (simp add: loaded_Suc loaded_0 tally_Cons tally_Nil count_after_Suc)
          next
            case False
            with i k(5) have "tally (loaded rest i) ?nl < 3 \<and>
                count_after ?s1 rest i < save_threshold ?s1" by simp
            with i show ?thesis
              by (simp add: loaded_Suc tally_Cons count_after_Suc)
          qed
        qed
        have la: "links_after ?s1 xs = links_after s (e # xs)" for xs
          by (simp add: links_after_Cons)
        have upd: "?s1\<lparr>download_links := ls\<rparr> = s\<lparr>download_links := ls\<rparr>" for ls
          by simp
        have exit: "exit_ok s (e # rest) r (Suc k) sc' nl' s'"
        proof (cases r)
          case None
          with k(6) c0 show ?thesis
            by (cases "k = 0")
               (auto simp: exit_ok_def count_after_Suc la upd)
        next
          case (Some x)
          with k(6) c0 show ?thesis
          proof (cases x)
            case NoGrowth
            with Some k(6) obtain k' where "k = Suc k'"
              by (cases k) (auto simp: exit_ok_def)
            with Some NoGrowth k(6) show ?thesis
              by (auto simp: exit_ok_def la upd)
          next
            case Threshold
            with Some k(6) show ?thesis
              by (auto simp: exit_ok_def count_after_Suc)
          next
            case Ceiling
            with Some k(6) c0 show ?thesis
              by (cases "k = 0")
                 (auto simp: exit_ok_def count_after_Suc la upd)
          qed
        qed
        from k(1-4) earlier exit
        have "sc' = sc + Suc k \<and> Suc k \<le> length (e # rest) \<and> sc' \<le> MAX_SCROLL_ATTEMPTS s \<and>
          nl' = tally (loaded (e # rest) (Suc k)) nl \<and>
          (\<forall>j. 0 < j \<and> j < Suc k \<longrightarrow>
            tally (loaded (e # rest) j) nl < 3 \<and> count_after s (e # rest) j < save_threshold s) \<and>
          exit_ok s (e # rest) r (Suc k) sc' nl' s'"
          by (simp add: loaded_Suc tally_Cons)
        then show ?thesis by blast
      qed
    qed
  qed
qed

lemma loop_terminates:
  "MAX_SCROLL_ATTEMPTS s \<le> sc + length envs \<Longrightarrow> fst (scroll_loop s sc nl envs) \<noteq> None"
proof (induction envs arbitrary: s sc nl)
  case Nil
  then show ?case by (simp add: scroll_loop_ceiling)
next
  case (Cons e rest)
  show ?case
  proof (cases "sc < MAX_SCROLL_ATTEMPTS s")
    case False
    then show ?thesis by (simp add: scroll_loop_ceiling)
  next
    case True
    let ?s1 = "s\<lparr>download_links := add_hrefs (download_links s) (hrefs e)\<rparr>"
    have "fst (scroll_loop ?s1 (sc + 1) n rest) \<noteq> None" for n
      using Cons.prems by (intro Cons.IH) simp
    with True show ?thesis
      by (simp add: scroll_loop_Cons Let_def)
  qed
qed

text \<open>The simulated page of the example, and the evaluation of the loop on it.\<close>

lemmas loop_eval =
  init_scraper_def height_steps_def scroll_loop_Cons scroll_loop_Nil scroll_page_def MAX_RETRIES_def

lemma loop_on_heights_prefix:
  "0 < threshold \<Longrightarrow>
   scroll_loop (init_scraper keyword threshold) 0 0 (height_steps [100, 200]) =
     (None, 1, 0, init_scraper keyword threshold) \<and>
   scroll_loop (init_scraper keyword threshold) 0 0 (height_steps [100, 200, 200]) =
     (None, 2, 1, init_scraper keyword threshold) \<and>
   scroll_loop (init_scraper keyword threshold) 0 0 (height_steps [100, 200, 200, 200]) =
     (None, 3, 2, init_scraper keyword threshold) \<and>
   scroll_loop (init_scraper keyword threshold) 0 0 (height_steps [100, 200, 200, 200, 350]) =
     (None, 4, 0, init_scraper keyword threshold)"
  by (simp add: loop_eval)

lemma loop_on_heights_resumes:
  "0 < threshold \<Longrightarrow>
   scroll_loop (init_scraper keyword threshold) 0 0 (height_steps ([100, 200, 200, 200, 350] @ hs)) =
   scroll_loop (init_scraper keyword threshold) 4 0 (height_steps (350 # hs))"
proof -
  have four: "Suc (Suc (Suc (Suc 0))) = 4" by simp
  assume "0 < threshold"
  then show ?thesis by (simp add: loop_eval four)
qed

lemma loop_on_heights_flat:
  "0 < threshold \<Longrightarrow>
   scroll_loop (init_scraper keyword threshold) 0 0
      (height_steps [100, 200, 200, 200, 350, 350, 350]) =
     (None, 6, 2, init_scraper keyword threshold) \<and>
   scroll_loop (init_scraper keyword threshold) 0 0
      (height_steps [100, 200, 200, 200, 350, 350, 350, 350]) =
     (Some NoGrowth, 7, 3, init_scraper keyword threshold)"
  by (simp add: loop_eval)

lemma loop_on_heights_from:
  "0 < threshold \<Longrightarrow>
   scroll_loop (init_scraper keyword threshold) 0 0 (height_steps [h0, 100, 200, 200, 200, 350]) =
     (None, 5, 0, init_scraper keyword threshold)"
  by (cases "h0 < 100") (simp_all add: loop_eval)

text \<open>
  Claim C2. Run from the start of the loop, the counter of scrolls without growth follows
  the results of the scroll calls: a call that grows the page sets it to zero, any other
  adds one, so it is the number of calls without growth at the end of the calls made. The
  loop ends in exactly three ways. It ends on the call that brings the counter to 3
  (\<open>NoGrowth\<close>), and the counter was below 3 after every earlier call. It ends at the end of
  the first iteration where the number of links in the set has reached the save threshold
  (\<open>Threshold\<close>); the number was below the threshold at the end of every earlier iteration,
  and is below it at the end of the last one when the loop ends otherwise. It ends when the
  number of scroll attempts is the ceiling (\<open>Ceiling\<close>), which it never exceeds. Only a
  simulated input that is too short leaves the loop running (\<open>None\<close>): with as many
  simulated scrolls as the ceiling it always ends. The links found are kept in the set.

  On the heights 100, 200, 200, 200, 350, one per scroll call, the calls are: growth, no
  growth, no growth, growth. The counter reads 0, 1, 2, 0: the two calls that leave the
  height at 200 do not make the loop report, the rise to 350 sets the counter back to zero,
  and the loop goes on from there as a loop whose counter is zero, whatever heights follow.
  The report that no more content loads comes exactly at the third call in a row without
  growth: when the height stays at 350, not after two such calls and at the third. The same
  holds when the five heights are those that five scroll calls leave, from any height \<open>h0\<close>
  before the first.
\<close>

theorem scroll_loop_counter_and_exits:
  "tally (bs @ [True]) n = 0 \<and> tally (bs @ [False]) n = tally bs n + 1 \<and> tally [] n = n \<and>
   (scroll_loop s 0 0 envs = (r, scroll_count, no_load_count, s') \<longrightarrow>
      scroll_count \<le> length envs \<and> scroll_count \<le> MAX_SCROLL_ATTEMPTS s \<and>
      no_load_count = tally (loaded envs scroll_count) 0 \<and>
      no_load_count = length (takeWhile Not (rev (loaded envs scroll_count))) \<and>
      no_load_count \<le> 3 \<and>
      (\<forall>j. 0 < j \<and> j < scroll_count \<longrightarrow>
         tally (loaded envs j) 0 < 3 \<and> count_after s envs j < save_threshold s) \<and>
      (r = Some NoGrowth \<longleftrightarrow> no_load_count = 3) \<and>
      (r = Some Threshold \<longleftrightarrow>
         0 < scroll_count \<and> no_load_count < 3 \<and>
         save_threshold s \<le> count_after s envs scroll_count) \<and>
      (r = Some Ceiling \<longrightarrow> scroll_count = MAX_SCROLL_ATTEMPTS s) \<and>
      (r = None \<longrightarrow> scroll_count = length envs \<and> scroll_count < MAX_SCROLL_ATTEMPTS s) \<and>
      (r = Some NoGrowth \<longrightarrow>
         s' = s\<lparr>download_links := links_after s (take (scroll_count - 1) envs)\<rparr>) \<and>
      (r = Some Ceiling \<or> r = None \<longrightarrow>
         s' = s\<lparr>download_links := links_after s (take scroll_count envs)\<rparr>) \<and>
      (MAX_SCROLL_ATTEMPTS s \<le> length envs \<longrightarrow> r \<noteq> None)) \<and>
   (0 < threshold \<longrightarrow>
      scroll_loop (init_scraper keyword threshold) 0 0 (height_steps [100, 200]) =
        (None, 1, 0, init_scraper keyword threshold) \<and>
      scroll_loop (init_scraper keyword threshold) 0 0 (height_steps [100, 200, 200]) =
        (None, 2, 1, init_scraper keyword threshold) \<and>
      scroll_loop (init_scraper keyword threshold) 0 0 (height_steps [100, 200, 200, 200]) =
        (None, 3, 2, init_scraper keyword threshold) \<and>
      scroll_loop (init_scraper keyword threshold) 0 0 (height_steps [100, 200, 200, 200, 350]) =
        (None, 4, 0, init_scraper keyword threshold) \<and>
      scroll_loop (init_scraper keyword threshold) 0 0
          (height_steps ([100, 200, 200, 200, 350] @ hs)) =
        scroll_loop (init_scraper keyword threshold) 4 0 (height_steps (350 # hs)) \<and>
      scroll_loop (init_scraper keyword threshold) 0 0
          (height_steps [100, 200, 200, 200, 350, 350, 350]) =
        (None, 6, 2, init_scraper keyword threshold) \<and>
      scroll_loop (init_scraper keyword threshold) 0 0
          (height_steps [100, 200, 200, 200, 350, 350, 350, 350]) =
        (Some NoGrowth, 7, 3, init_scraper keyword threshold) \<and>
      scroll_loop (init_scraper keyword threshold) 0 0
          (height_steps [h0, 100, 200, 200, 200, 350]) =
        (None, 5, 0, init_scraper keyword threshold))"
proof -
  have counter: "tally (bs @ [True]) n = 0 \<and> tally (bs @ [False]) n = tally bs n + 1 \<and>
      tally [] n = n"
    by (simp add: tally_snoc tally_Nil)
  have general: "scroll_count \<le> length envs \<and> scroll_count \<le> MAX_SCROLL_ATTEMPTS s \<and>
      no_load_count = tally (loaded envs scroll_count) 0 \<and>
      no_load_count = length (takeWhile Not (rev (loaded envs scroll_count))) \<and>
      no_load_count \<le> 3 \<and>
      (\<forall>j. 0 < j \<and> j < scroll_count \<longrightarrow>
         tally (loaded envs j) 0 < 3 \<and> count_after s envs j < save_threshold s) \<and>
      (r = Some NoGrowth \<longleftrightarrow> no_load_count = 3) \<and>
      (r = Some Threshold \<longleftrightarrow>
         0 < scroll_count \<and> no_load_count < 3 \<and>
         save_threshold s \<le> count_after s envs scroll_count) \<and>
      (r = Some Ceiling \<longrightarrow> scroll_count = MAX_SCROLL_ATTEMPTS s) \<and>
      (r = None \<longrightarrow> scroll_count = length envs \<and> scroll_count < MAX_SCROLL_ATTEMPTS s) \<and>
      (r = Some NoGrowth \<longrightarrow>
         s' = s\<lparr>download_links := links_after s (take (scroll_count - 1) envs)\<rparr>) \<and>
      (r = Some Ceiling \<or> r = None \<longrightarrow>
         s' = s\<lparr>download_links := links_after s (take scroll_count envs)\<rparr>) \<and>
      (MAX_SCROLL_ATTEMPTS s \<le> length envs \<longrightarrow> r \<noteq> None)"
    if run: "scroll_loop s 0 0 envs = (r, scroll_count, no_load_count, s')"
  proof -
    from loop_inv[OF run] obtain k where k: "scroll_count = 0 + k" "k \<le> length envs"
      "scroll_count \<le> MAX_SCROLL_ATTEMPTS s"
      "no_load_count = tally (loaded envs k) 0"
      "\<forall>j. 0 < j \<and> j < k \<longrightarrow>
          tally (loaded envs j) 0 < 3 \<and> count_after s envs j < save_threshold s"
      "exit_ok s envs r k scroll_count no_load_count s'"
      by auto
    from k(1) have sc: "k = scroll_count" by simp
    note e = k(6)[unfolded sc]
    have 1: "scroll_count \<le> length envs" using k(2) sc by simp
    have 2: "no_load_count = tally (loaded envs scroll_count) 0" using k(4) sc by simp
    have 3: "no_load_count = length (takeWhile Not (rev (loaded envs scroll_count)))"
      using 2 by (simp add: tally_trailing)
    have 4: "no_load_count \<le> 3"
      using e by (auto simp: exit_ok_def split: option.splits exit_reason.splits)
    have 5: "\<forall>j. 0 < j \<and> j < scroll_count \<longrightarrow>
         tally (loaded envs j) 0 < 3 \<and> count_after s envs j < save_threshold s"
      using k(5) sc by simp
    have 6: "r = Some NoGrowth \<longleftrightarrow> no_load_count = 3"
      using e by (auto simp: exit_ok_def split: option.splits exit_reason.splits)
    have 7: "r = Some Threshold \<longleftrightarrow>
         0 < scroll_count \<and> no_load_count < 3 \<and>
         save_threshold s \<le> count_after s envs scroll_count"
      using e by (auto simp: exit_ok_def split: option.splits exit_reason.splits)
    have 8: "r = Some Ceiling \<longrightarrow> scroll_count = MAX_SCROLL_ATTEMPTS s"
      using e by (auto simp: exit_ok_def)
    have 9: "r = None \<longrightarrow> scroll_count = length envs \<and> scroll_count < MAX_SCROLL_ATTEMPTS s"
      using e by (auto simp: exit_ok_def)
    have 10: "r = Some NoGrowth \<longrightarrow>
         s' = s\<lparr>download_links := links_after s (take (scroll_count - 1) envs)\<rparr>"
      using e by (auto simp: exit_ok_def)
    have 11: "r = Some Ceiling \<or> r = None \<longrightarrow>
         s' = s\<lparr>download_links := links_after s (take scroll_count envs)\<rparr>"
      using e by (auto simp: exit_ok_def)
    have 12: "MAX_SCROLL_ATTEMPTS s \<le> length envs \<longrightarrow> r \<noteq> None"
      using loop_terminates[of s 0 envs 0] run by simp
    from 1 k(3) 2 3 4 5 6 7 8 9 10 11 12 show ?thesis by blast
  qed
  have example: "scroll_loop (init_scraper keyword threshold) 0 0 (height_steps [100, 200]) =
        (None, 1, 0, init_scraper keyword threshold) \<and>
      scroll_loop (init_scraper keyword threshold) 0 0 (height_steps [100, 200, 200]) =
        (None, 2, 1, init_scraper keyword threshold) \<and>
      scroll_loop (init_scraper keyword threshold) 0 0 (height_steps [100, 200, 200, 200]) =
        (None, 3, 2, init_scraper keyword threshold) \<and>
      scroll_loop (init_scraper keyword threshold) 0 0 (height_steps [100, 200, 200, 200, 350]) =
        (None, 4, 0, init_scraper keyword threshold) \<and>
      scroll_loop (init_scraper keyword threshold) 0 0
          (height_steps ([100, 200, 200, 200, 350] @ hs)) =
        scroll_loop (init_scraper keyword threshold) 4 0 (height_steps (350 # hs)) \<and>
      scroll_loop (init_scraper keyword threshold) 0 0
          (height_steps [100, 200, 200, 200, 350, 350, 350]) =
        (None, 6, 2, init_scraper keyword threshold) \<and>
      scroll_loop (init_scraper keyword threshold) 0 0
          (height_steps [100, 200, 200, 200, 350, 350, 350, 350]) =
        (Some NoGrowth, 7, 3, init_scraper keyword threshold) \<and>
      scroll_loop (init_scraper keyword threshold) 0 0
          (height_steps [h0, 100, 200, 200, 200, 350]) =
        (None, 5, 0, init_scraper keyword threshold)"
    if "0 < threshold"
    using loop_on_heights_prefix[OF that] loop_on_heights_resumes[OF that]
      loop_on_heights_flat[OF that] loop_on_heights_from[OF that]
    by simp
  from counter general example show ?thesis by blast
qed

text \<open>
  The theorem at three runs, one for each way the loop ends. The scraper of \<^verbatim>\<open>main\<close>
  (keyword dog, threshold 100000) on the heights 100, 200, 200, 200, 350, 350, 350, 350
  ends at the seventh scroll, the third in a row without growth. A scraper with threshold 2
  that finds one link at its first scroll and a second at the next ends at the second
  scroll, on the threshold. A scraper with a ceiling of two attempts on a page that keeps
  growing ends after two scrolls.
\<close>

theorem scroll_loop_counter_and_exits_witness:
  "scroll_loop (init_scraper ''dog'' 100000) 0 0
      (height_steps [100, 200, 200, 200, 350, 350, 350, 350]) =
     (Some NoGrowth, 7, 3, init_scraper ''dog'' 100000) \<and>
   (3::nat) = tally (loaded (height_steps [100, 200, 200, 200, 350, 350, 350, 350]) 7) 0 \<and>
   (3::nat) = length (takeWhile Not
       (rev (loaded (height_steps [100, 200, 200, 200, 350, 350, 350, 350]) 7))) \<and>
   tally (loaded (height_steps [100, 200, 200, 200, 350, 350, 350, 350]) 3) 0 < 3 \<and>
   count_after (init_scraper ''dog'' 100000)
       (height_steps [100, 200, 200, 200, 350, 350, 350, 350]) 3 < 100000 \<and>
   scroll_loop (init_scraper ''dog'' 2) 0 0
      [\<lparr>scroll = (\<lambda>_. Heights 100 200), hrefs = [Some ''u1''], write_io = WriteOk\<rparr>,
       \<lparr>scroll = (\<lambda>_. Heights 200 300), hrefs = [Some ''u1'', Some ''u2''], write_io = WriteOk\<rparr>] =
     (Some Threshold, 2, 0,
      (init_scraper ''dog'' 2)\<lparr>total_saved_links := 2,
         url_dir := [''./url/dog_2.txt'' \<mapsto> [''u1'', ''u2'']]\<rparr>) \<and>
   count_after (init_scraper ''dog'' 2)
      [\<lparr>scroll = (\<lambda>_. Heights 100 200), hrefs = [Some ''u1''], write_io = WriteOk\<rparr>,
       \<lparr>scroll = (\<lambda>_. Heights 200 300), hrefs = [Some ''u1'', Some ''u2''], write_io = WriteOk\<rparr>] 1
     < 2 \<and>
   2 \<le> count_after (init_scraper ''dog'' 2)
      [\<lparr>scroll = (\<lambda>_. Heights 100 200), hrefs = [Some ''u1''], write_io = WriteOk\<rparr>,
       \<lparr>scroll = (\<lambda>_. Heights 200 300), hrefs = [Some ''u1'', Some ''u2''], write_io = WriteOk\<rparr>] 2 \<and>
   scroll_loop ((init_scraper ''dog'' 100000)\<lparr>MAX_SCROLL_ATTEMPTS := 2\<rparr>) 0 0
      (height_steps [100, 200, 300, 400]) =
     (Some Ceiling, 2, 0, (init_scraper ''dog'' 100000)\<lparr>MAX_SCROLL_ATTEMPTS := 2\<rparr>) \<and>
   (2::nat) = MAX_SCROLL_ATTEMPTS ((init_scraper ''dog'' 100000)\<lparr>MAX_SCROLL_ATTEMPTS := 2\<rparr>) \<and>
   (0::int) < 100000 \<and>
   scroll_loop (init_scraper ''dog'' 100000) 0 0 (height_steps [100, 200, 200, 200, 350]) =
     (None, 4, 0, init_scraper ''dog'' 100000) \<and>
   scroll_loop (init_scraper ''dog'' 100000) 0 0
      (height_steps ([100, 200, 200, 200, 350] @ [350, 350, 350])) =
     scroll_loop (init_scraper ''dog'' 100000) 4 0 (height_steps (350 # [350, 350, 350]))"
proof -
  let ?D = "init_scraper ''dog'' 100000"
  let ?hs = "height_steps [100, 200, 200, 200, 350, 350, 350, 350]"
  let ?T = "init_scraper ''dog'' 2"
  let ?T' = "?T\<lparr>total_saved_links := 2, url_dir := [''./url/dog_2.txt'' \<mapsto> [''u1'', ''u2'']]\<rparr>"
  let ?es = "[\<lparr>scroll = (\<lambda>_. Heights 100 200), hrefs = [Some ''u1''], write_io = WriteOk\<rparr>,
       \<lparr>scroll = (\<lambda>_. Heights 200 300), hrefs = [Some ''u1'', Some ''u2''], write_io = WriteOk\<rparr>]"
  let ?C = "?D\<lparr>MAX_SCROLL_ATTEMPTS := 2\<rparr>"
  let ?gs = "height_steps [100, 200, 300, 400]"
  have run1: "scroll_loop ?D 0 0 ?hs = (Some NoGrowth, 7, 3, ?D)"
    by (simp add: loop_eval)
  have run2: "scroll_loop ?T 0 0 ?es = (Some Threshold, 2, 0, ?T')"
    by (simp add: init_scraper_def scroll_loop_Cons scroll_page_def MAX_RETRIES_def
          save_links_to_file_def Let_def append_lines_def output_file_def digit_char_def)
  have run3: "scroll_loop ?C 0 0 ?gs = (Some Ceiling, 2, 0, ?C)"
    by (simp add: loop_eval scroll_loop_ceiling)
  note G1 = scroll_loop_counter_and_exits[where s = ?D and envs = ?hs and r = "Some NoGrowth"
      and scroll_count = 7 and no_load_count = 3 and s' = ?D and threshold = 100000
      and keyword = "''dog''" and hs = "[350, 350, 350]",
      THEN conjunct2, THEN conjunct2, THEN conjunct2]
  from G1[THEN conjunct1] run1
  have g1: "(3::nat) = tally (loaded ?hs 7) 0 \<and>
      (3::nat) = length (takeWhile Not (rev (loaded ?hs 7))) \<and>
      (\<forall>j. 0 < j \<and> j < (7::nat) \<longrightarrow>
         tally (loaded ?hs j) 0 < 3 \<and> count_after ?D ?hs j < save_threshold ?D)"
    by blast
  then have early: "tally (loaded ?hs 3) 0 < 3 \<and> count_after ?D ?hs 3 < save_threshold ?D"
    by simp
  have th1: "save_threshold ?D = 100000" by (simp add: init_scraper_def)
  have pos: "(0::int) < 100000" by simp
  from G1[THEN conjunct2] pos
  have ex: "scroll_loop ?D 0 0 (height_steps [100, 200, 200, 200, 350]) = (None, 4, 0, ?D) \<and>
      scroll_loop ?D 0 0 (height_steps ([100, 200, 200, 200, 350] @ [350, 350, 350])) =
        scroll_loop ?D 4 0 (height_steps (350 # [350, 350, 350]))"
    by blast
  note G2 = scroll_loop_counter_and_exits[where s = ?T and envs = ?es and r = "Some Threshold"
      and scroll_count = 2 and no_load_count = 0 and s' = ?T',
      THEN conjunct2, THEN conjunct2, THEN conjunct2, THEN conjunct1]
  from G2 run2
  have g2: "(\<forall>j. 0 < j \<and> j < (2::nat) \<longrightarrow>
         tally (loaded ?es j) 0 < 3 \<and> count_after ?T ?es j < save_threshold ?T) \<and>
      save_threshold ?T \<le> count_after ?T ?es 2"
    by blast
  then have "count_after ?T ?es 1 < save_threshold ?T" by simp
  moreover have th2: "save_threshold ?T = 2" by (simp add: init_scraper_def)
  ultimately have below: "count_after ?T ?es 1 < 2" by simp
  from g2 th2 have reached: "2 \<le> count_after ?T ?es 2" by simp
  note G3 = scroll_loop_counter_and_exits[where s = ?C and envs = ?gs and r = "Some Ceiling"
      and scroll_count = 2 and no_load_count = 0 and s' = ?C,
      THEN conjunct2, THEN conjunct2, THEN conjunct2, THEN conjunct1]
  from G3 run3 have ceiling: "(2::nat) = MAX_SCROLL_ATTEMPTS ?C"
    by blast
  from early th1 have early': "tally (loaded ?hs 3) 0 < 3 \<and> count_after ?D ?hs 3 < 100000"
    by simp
  from run1 g1 early' run2 below reached run3 ceiling pos ex show ?thesis
    by blast
qed

subsection \<open>Saving the links\<close>

lemma save_links_to_file_ok:
  "save_links_to_file s WriteOk =
     s\<lparr>total_saved_links := total_saved_links s + length (download_links s),
       url_dir := append_lines (url_dir s)
          (output_file (search_keyword s) (total_saved_links s + length (download_links s)))
          (download_links s)\<rparr>"
  by (simp add: save_links_to_file_def Let_def)

lemma save_links_to_file_total:
  "total_saved_links (save_links_to_file s io) = total_saved_links s + length (download_links s)"
  by (cases io) (simp_all add: save_links_to_file_def Let_def)

lemma save_links_to_file_keeps_links:
  "download_links (save_links_to_file s io) = download_links s"
  by (cases io) (simp_all add: save_links_to_file_def Let_def)

lemma loop_threshold_state:
  "scroll_loop s sc nl envs = (Some Threshold, sc', nl', s') \<Longrightarrow>
   \<exists>k. k < length envs \<and> sc' = sc + k + 1 \<and>
       save_threshold s \<le> int (length (links_after s (take (k + 1) envs))) \<and>
       s' = (save_links_to_file (s\<lparr>download_links := links_after s (take (k + 1) envs)\<rparr>)
               (write_io (envs ! k)))\<lparr>download_links := []\<rparr>"
proof (induction envs arbitrary: s sc nl)
  case Nil
  then show ?case
    by (cases "sc < MAX_SCROLL_ATTEMPTS s") (auto simp: scroll_loop_Nil scroll_loop_ceiling)
next
  case (Cons e rest)
  have lt: "sc < MAX_SCROLL_ATTEMPTS s"
    using Cons.prems by (cases "sc < MAX_SCROLL_ATTEMPTS s") (auto simp: scroll_loop_ceiling)
  let ?nl = "if scroll_page (scroll e) then 0 else nl + 1"
  let ?s1 = "s\<lparr>download_links := add_hrefs (download_links s) (hrefs e)\<rparr>"
  have nl3: "\<not> ?nl \<ge> 3"
    using Cons.prems lt by (auto simp: scroll_loop_Cons Let_def split: if_splits)
  show ?case
  proof (cases "int (length (download_links ?s1)) \<ge> save_threshold s")
    case True
    with nl3 lt Cons.prems have "0 < length (e # rest) \<and> sc' = sc + 0 + 1 \<and>
       save_threshold s \<le> int (length (links_after s (take (0 + 1) (e # rest)))) \<and>
       s' = (save_links_to_file (s\<lparr>download_links := links_after s (take (0 + 1) (e # rest))\<rparr>)
               (write_io ((e # rest) ! 0)))\<lparr>download_links := []\<rparr>"
      by (auto simp: scroll_loop_Cons Let_def links_after_def split: if_splits)
    then show ?thesis by blast
  next
    case False
    with nl3 lt Cons.prems
    have rec: "scroll_loop ?s1 (sc + 1) ?nl rest = (Some Threshold, sc', nl', s')"
      by (auto simp: scroll_loop_Cons Let_def split: if_splits)
    from Cons.IH[OF rec] obtain k where k: "k < length rest" "sc' = sc + 1 + k + 1"
       "save_threshold ?s1 \<le> int (length (links_after ?s1 (take (k + 1) rest)))"
       "s' = (save_links_to_file (?s1\<lparr>download_links := links_after ?s1 (take (k + 1) rest)\<rparr>)
               (write_io (rest ! k)))\<lparr>download_links := []\<rparr>"
      by blast
    then have "Suc k < length (e # rest) \<and> sc' = sc + Suc k + 1 \<and>
       save_threshold s \<le> int (length (links_after s (take (Suc k + 1) (e # rest)))) \<and>
       s' = (save_links_to_file (s\<lparr>download_links := links_after s (take (Suc k + 1) (e # rest))\<rparr>)
               (write_io ((e # rest) ! Suc k)))\<lparr>download_links := []\<rparr>"
      by (simp add: links_after_Cons)
    then show ?thesis by blast
  qed
qed

text \<open>
  Claim C8, as the code has it. \<^verbatim>\<open>save_links_to_file\<close> adds the number of links in the
  set to the running total, whether the write succeeds or not, and leaves the set as it is;
  when the write succeeds, the members are appended, one per line, to the file named by
  the search keyword and the new total, and no other file changes. The loop saves when the
  number of links reaches the save threshold, and clears the set after that save. The end
  of the session saves when the set is not empty, does nothing when it is empty, and does
  not clear the set.
\<close>

theorem save_links_flush:
  "total_saved_links (save_links_to_file s io) = total_saved_links s + length (download_links s) \<and>
   download_links (save_links_to_file s io) = download_links s \<and>
   url_dir (save_links_to_file s WriteOk)
       (output_file (search_keyword s) (total_saved_links s + length (download_links s))) =
     Some ((case url_dir s (output_file (search_keyword s)
                    (total_saved_links s + length (download_links s))) of
              None \<Rightarrow> [] | Some old \<Rightarrow> old) @ download_links s) \<and>
   (f \<noteq> output_file (search_keyword s) (total_saved_links s + length (download_links s)) \<longrightarrow>
      url_dir (save_links_to_file s WriteOk) f = url_dir s f) \<and>
   (scroll_loop s 0 0 envs = (Some Threshold, scroll_count, no_load_count, s') \<longrightarrow>
      0 < scroll_count \<and> scroll_count \<le> length envs \<and>
      save_threshold s \<le> int (length (links_after s (take scroll_count envs))) \<and>
      s' = (save_links_to_file (s\<lparr>download_links := links_after s (take scroll_count envs)\<rparr>)
              (write_io (envs ! (scroll_count - 1))))\<lparr>download_links := []\<rparr> \<and>
      download_links s' = []) \<and>
   (download_links s = [] \<longrightarrow> session_end s io = s) \<and>
   (download_links s \<noteq> [] \<longrightarrow>
      session_end s io = save_links_to_file s io \<and>
      download_links (session_end s io) = download_links s)"
proof (intro conjI impI)
  show "total_saved_links (save_links_to_file s io) = total_saved_links s + length (download_links s)"
    by (rule save_links_to_file_total)
  show "download_links (save_links_to_file s io) = download_links s"
    by (rule save_links_to_file_keeps_links)
  show "url_dir (save_links_to_file s WriteOk)
       (output_file (search_keyword s) (total_saved_links s + length (download_links s))) =
     Some ((case url_dir s (output_file (search_keyword s)
                    (total_saved_links s + length (download_links s))) of
              None \<Rightarrow> [] | Some old \<Rightarrow> old) @ download_links s)"
    by (simp add: save_links_to_file_ok append_lines_def)
  show "url_dir (save_links_to_file s WriteOk) f = url_dir s f"
    if "f \<noteq> output_file (search_keyword s) (total_saved_links s + length (download_links s))"
    using that by (simp add: save_links_to_file_ok append_lines_def)
next
  assume run: "scroll_loop s 0 0 envs = (Some Threshold, scroll_count, no_load_count, s')"
  from loop_threshold_state[OF run] obtain k where k: "k < length envs" "scroll_count = 0 + k + 1"
    "save_threshold s \<le> int (length (links_after s (take (k + 1) envs)))"
    "s' = (save_links_to_file (s\<lparr>download_links := links_after s (take (k + 1) envs)\<rparr>)
               (write_io (envs ! k)))\<lparr>download_links := []\<rparr>"
    by blast
  show "0 < scroll_count" using k(2) by simp
  show "scroll_count \<le> length envs" using k(1,2) by simp
  show "save_threshold s \<le> int (length (links_after s (take scroll_count envs)))"
    using k(2,3) by simp
  show "s' = (save_links_to_file (s\<lparr>download_links := links_after s (take scroll_count envs)\<rparr>)
              (write_io (envs ! (scroll_count - 1))))\<lparr>download_links := []\<rparr>"
    using k(2,4) by simp
  show "download_links s' = []" using k(4) by simp
next
  show "session_end s io = s" if "download_links s = []"
    using that by (simp add: session_end_def)
  show "session_end s io = save_links_to_file s io" if "download_links s \<noteq> []"
    using that by (simp add: session_end_def)
  show "download_links (session_end s io) = download_links s" if "download_links s \<noteq> []"
    using that by (simp add: session_end_def save_links_to_file_keeps_links)
qed

text \<open>
  The theorem at a scraper with threshold 2 that finds two links on its first scroll: the
  loop saves them to \<^verbatim>\<open>./url/dog_2.txt\<close> and clears the set, and the end of the session
  then has nothing to save.
\<close>

theorem save_links_flush_witness:
  "scroll_loop (init_scraper ''dog'' 2) 0 0
      [\<lparr>scroll = (\<lambda>_. Heights 100 200), hrefs = [Some ''u1'', Some ''u2''], write_io = WriteOk\<rparr>] =
     (Some Threshold, 1, 0,
      (init_scraper ''dog'' 2)\<lparr>total_saved_links := 2,
         url_dir := [''./url/dog_2.txt'' \<mapsto> [''u1'', ''u2'']]\<rparr>) \<and>
   download_links ((init_scraper ''dog'' 2)\<lparr>total_saved_links := 2,
         url_dir := [''./url/dog_2.txt'' \<mapsto> [''u1'', ''u2'']]\<rparr>) = [] \<and>
   session_end ((init_scraper ''dog'' 2)\<lparr>total_saved_links := 2,
         url_dir := [''./url/dog_2.txt'' \<mapsto> [''u1'', ''u2'']]\<rparr>) WriteOk =
     (init_scraper ''dog'' 2)\<lparr>total_saved_links := 2,
         url_dir := [''./url/dog_2.txt'' \<mapsto> [''u1'', ''u2'']]\<rparr> \<and>
   download_links ((init_scraper ''dog'' 2)\<lparr>download_links := [''u1'', ''u2'']\<rparr>) \<noteq> [] \<and>
   download_links (session_end ((init_scraper ''dog'' 2)\<lparr>download_links := [''u1'', ''u2'']\<rparr>) WriteOk)
     = download_links ((init_scraper ''dog'' 2)\<lparr>download_links := [''u1'', ''u2'']\<rparr>)"
proof -
  let ?s = "init_scraper ''dog'' 2"
  let ?e = "\<lparr>scroll = (\<lambda>_. Heights 100 200), hrefs = [Some ''u1'', Some ''u2''], write_io = WriteOk\<rparr>"
  let ?s' = "?s\<lparr>total_saved_links := 2, url_dir := [''./url/dog_2.txt'' \<mapsto> [''u1'', ''u2'']]\<rparr>"
  let ?t = "?s\<lparr>download_links := [''u1'', ''u2'']\<rparr>"
  have run: "scroll_loop ?s 0 0 [?e] = (Some Threshold, 1, 0, ?s')"
    by (simp add: init_scraper_def scroll_loop_Cons scroll_page_def MAX_RETRIES_def
          save_links_to_file_ok append_lines_def output_file_def digit_char_def)
  have cleared: "download_links ?s' = []"
    using run save_links_flush[of ?s WriteOk "[]" "[?e]" 1 0 ?s'] by blast
  have skipped: "session_end ?s' WriteOk = ?s'"
    using cleared save_links_flush[of ?s' WriteOk "[]" "[]" 0 0 ?s'] by blast
  have full: "download_links ?t \<noteq> []"
    by simp
  have kept: "download_links (session_end ?t WriteOk) = download_links ?t"
    using full save_links_flush[of ?t WriteOk "[]" "[]" 0 0 ?s'] by blast
  show ?thesis
    using run cleared skipped full kept by blast
qed

text \<open>
  The claim as the specification states it, that every flush clears the set, fails for
  the flush at the end of the session: the link is saved and stays in the set.
\<close>

theorem session_end_keeps_links_counterexample:
  "download_links (session_end
      ((init_scraper ''dog'' 100000)\<lparr>download_links := [''https://unsplash.com/photos/abc/download'']\<rparr>)
      WriteOk) \<noteq> []"
  by (simp add: session_end_def save_links_to_file_keeps_links)


subsection \<open>The rate limiter\<close>

lemma dropWhile_sorted_ge:
  "sorted xs \<Longrightarrow> x \<in> set (dropWhile (\<lambda>t. t < b) xs) \<Longrightarrow> b \<le> (x::real)"
  by (induction xs) (auto split: if_splits)

lemma acquire_step:
  assumes inv: "limiter_inv rl c H" and m: "1 \<le> max_requests rl" and g: "0 \<le> gap" and l: "0 \<le> lag"
  shows "\<exists>rl' slept. acquire rl (c + gap) lag = Inr (rl', slept) \<and> 0 \<le> slept \<and>
           max_requests rl' = max_requests rl \<and> time_window rl' = time_window rl \<and>
           limiter_inv rl' (c + gap + slept + lag) (H @ [c + gap + slept + lag])"
proof -
  define W where "W = time_window rl"
  define mx where "mx = nat (max_requests rl)"
  define now where "now = c + gap"
  define q0 where "q0 = request_times rl"
  define p where "p = (\<lambda>t. t < now - W)"
  define q where "q = dropWhile p q0"
  from inv obtain P where P: "H = P @ q0" "\<forall>t\<in>set P. t < c - W"
    and srt: "sorted H" and le: "\<forall>t\<in>set H. t \<le> c"
    and len: "length q0 \<le> mx \<or> (length q0 = mx + 1 \<and> hd q0 < c - W)"
    and cnt: "\<forall>a. admitted_within a W H \<le> mx"
    unfolding limiter_inv_def W_def mx_def q0_def by blast
  have mx1: "1 \<le> mx" using m by (simp add: mx_def)
  have nowc: "c \<le> now" using g by (simp add: now_def)
  have sq0: "sorted q0" using srt P(1) by (simp add: sorted_append)
  define P' where "P' = P @ takeWhile p q0"
  have H: "H = P' @ q" by (simp add: P'_def q_def P(1))
  have P'old: "\<forall>t\<in>set P'. t < now - W"
  proof
    fix t assume "t \<in> set P'"
    then consider "t \<in> set P" | "t \<in> set (takeWhile p q0)" by (auto simp: P'_def)
    then show "t < now - W"
    proof cases
      case 1 then show ?thesis using P(2) nowc by force
    next
      case 2 then show ?thesis using set_takeWhileD[of t p q0] by (simp add: p_def)
    qed
  qed
  have qnew: "\<forall>t\<in>set q. now - W \<le> t"
    using dropWhile_sorted_ge[OF sq0] by (auto simp: q_def p_def)
  have lenq: "length q \<le> mx"
  proof -
    from len show ?thesis
    proof
      assume "length q0 \<le> mx"
      moreover have "length q \<le> length q0" by (simp add: q_def length_dropWhile_le)
      ultimately show ?thesis by simp
    next
      assume a: "length q0 = mx + 1 \<and> hd q0 < c - W"
      then obtain h r where hr: "q0 = h # r" by (cases q0) auto
      with a have "p h" using nowc by (simp add: p_def)
      then have "q = dropWhile p r" by (simp add: q_def hr)
      then have "length q \<le> length r" by (simp add: length_dropWhile_le)
      with a hr show ?thesis by simp
    qed
  qed
  show ?thesis
  proof (cases "int (length q) \<ge> max_requests rl")
    case True
    then have lq: "length q = mx" using lenq m by (simp add: mx_def)
    then obtain h q' where hq: "q = h # q'" using mx1 by (cases q) auto
    have hge: "now - W \<le> h" using qnew hq by simp
    define st where "st = W - (now - h) + 1 / 10"
    have stpos: "0 < st" using hge by (simp add: st_def)
    define tn where "tn = now + st + lag"
    have acq: "acquire rl (c + gap) lag = Inr (rl\<lparr>request_times := q @ [tn]\<rparr>, st)"
      using True stpos
      by (simp add: acquire_def Let_def q_def[symmetric, unfolded p_def q0_def W_def now_def] hq
            st_def[unfolded W_def now_def] tn_def[unfolded now_def] W_def now_def
            del: One_nat_def)
    have tn_h: "tn = h + W + 1 / 10 + lag" by (simp add: tn_def st_def)
    have tn_now: "now \<le> tn" using stpos l by (simp add: tn_def)
    have cntH: "admitted_within a W (H @ [tn]) \<le> mx" for a
    proof (cases "a \<le> tn \<and> tn \<le> a + W")
      case False
      then have "admitted_within a W (H @ [tn]) = admitted_within a W H"
        by (auto simp: admitted_within_def)
      then show ?thesis using cnt by simp
    next
      case True
      then have ah: "h < a" using tn_h l by simp
      have "length (filter (\<lambda>t. a \<le> t \<and> t \<le> a + W) P') = 0"
        using P'old hge ah by (auto simp: filter_empty_conv)
      moreover have "length (filter (\<lambda>t. a \<le> t \<and> t \<le> a + W) q) \<le> length q'"
        using ah by (simp add: hq)
      ultimately have "admitted_within a W H \<le> length q'"
        by (simp add: admitted_within_def H)
      then show ?thesis using True lq hq by (simp add: admitted_within_def)
    qed
    have "limiter_inv (rl\<lparr>request_times := q @ [tn]\<rparr>) tn (H @ [tn])"
      unfolding limiter_inv_def
    proof (intro conjI)
      show "sorted (H @ [tn])" using srt le nowc tn_now by (force simp: sorted_append)
      show "\<forall>t\<in>set (H @ [tn]). t \<le> tn" using le nowc tn_now by force
      show "\<exists>P. H @ [tn] = P @ request_times (rl\<lparr>request_times := q @ [tn]\<rparr>) \<and>
            (\<forall>t\<in>set P. t < tn - time_window (rl\<lparr>request_times := q @ [tn]\<rparr>))"
        using H P'old tn_now by (intro exI[of _ P']) (force simp: W_def)
      show "length (request_times (rl\<lparr>request_times := q @ [tn]\<rparr>)) \<le> nat (max_requests (rl\<lparr>request_times := q @ [tn]\<rparr>)) \<or>
        length (request_times (rl\<lparr>request_times := q @ [tn]\<rparr>)) = nat (max_requests (rl\<lparr>request_times := q @ [tn]\<rparr>)) + 1 \<and>
        hd (request_times (rl\<lparr>request_times := q @ [tn]\<rparr>)) < tn - time_window (rl\<lparr>request_times := q @ [tn]\<rparr>)"
        using lq hq tn_h l by (simp add: mx_def W_def)
      show "\<forall>a. admitted_within a (time_window (rl\<lparr>request_times := q @ [tn]\<rparr>)) (H @ [tn])
           \<le> nat (max_requests (rl\<lparr>request_times := q @ [tn]\<rparr>))"
        using cntH by (simp add: W_def mx_def)
    qed
    moreover have "c + gap + st + lag = tn" by (simp add: tn_def now_def)
    ultimately show ?thesis using acq stpos by simp
  next
    case False
    then have lq: "length q < mx" by (simp add: mx_def)
    define tn where "tn = now + lag"
    have acq: "acquire rl (c + gap) lag = Inr (rl\<lparr>request_times := q @ [tn]\<rparr>, 0)"
      using False
      by (simp add: acquire_def Let_def q_def[symmetric, unfolded p_def q0_def W_def now_def]
            tn_def[unfolded now_def] W_def now_def del: One_nat_def)
    have tn_now: "now \<le> tn" using l by (simp add: tn_def)
    have cntH: "admitted_within a W (H @ [tn]) \<le> mx" for a
    proof (cases "a \<le> tn \<and> tn \<le> a + W")
      case False
      then have "admitted_within a W (H @ [tn]) = admitted_within a W H"
        by (auto simp: admitted_within_def)
      then show ?thesis using cnt by simp
    next
      case True
      then have ah: "now - W \<le> a" using tn_now by simp
      have "length (filter (\<lambda>t. a \<le> t \<and> t \<le> a + W) P') = 0"
        using P'old ah by (auto simp: filter_empty_conv)
      moreover have "length (filter (\<lambda>t. a \<le> t \<and> t \<le> a + W) q) \<le> length q"
        by (rule length_filter_le)
      ultimately have "admitted_within a W H \<le> length q"
        by (simp add: admitted_within_def H)
      then show ?thesis using True lq by (simp add: admitted_within_def)
    qed
    have "limiter_inv (rl\<lparr>request_times := q @ [tn]\<rparr>) tn (H @ [tn])"
      unfolding limiter_inv_def
    proof (intro conjI)
      show "sorted (H @ [tn])" using srt le nowc tn_now by (force simp: sorted_append)
      show "\<forall>t\<in>set (H @ [tn]). t \<le> tn" using le nowc tn_now by force
      show "\<exists>P. H @ [tn] = P @ request_times (rl\<lparr>request_times := q @ [tn]\<rparr>) \<and>
            (\<forall>t\<in>set P. t < tn - time_window (rl\<lparr>request_times := q @ [tn]\<rparr>))"
        using H P'old tn_now by (intro exI[of _ P']) (force simp: W_def)
      show "length (request_times (rl\<lparr>request_times := q @ [tn]\<rparr>)) \<le> nat (max_requests (rl\<lparr>request_times := q @ [tn]\<rparr>)) \<or>
        length (request_times (rl\<lparr>request_times := q @ [tn]\<rparr>)) = nat (max_requests (rl\<lparr>request_times := q @ [tn]\<rparr>)) + 1 \<and>
        hd (request_times (rl\<lparr>request_times := q @ [tn]\<rparr>)) < tn - time_window (rl\<lparr>request_times := q @ [tn]\<rparr>)"
        using lq by (simp add: mx_def W_def)
      show "\<forall>a. admitted_within a (time_window (rl\<lparr>request_times := q @ [tn]\<rparr>)) (H @ [tn])
           \<le> nat (max_requests (rl\<lparr>request_times := q @ [tn]\<rparr>))"
        using cntH by (simp add: W_def mx_def)
    qed
    moreover have "c + gap + 0 + lag = tn" by (simp add: tn_def now_def)
    ultimately show ?thesis using acq by simp
  qed
qed


lemma acquire_calls_inv:
  "limiter_inv rl c H \<Longrightarrow> 1 \<le> max_requests rl \<Longrightarrow> \<forall>x\<in>set calls. 0 \<le> fst x \<and> 0 \<le> snd x \<Longrightarrow>
   \<exists>rl' c' adm. acquire_calls rl c calls = Inr (rl', c', adm) \<and> length adm = length calls \<and>
      limiter_inv rl' c' (H @ adm) \<and> time_window rl' = time_window rl \<and>
      max_requests rl' = max_requests rl"
proof (induction calls arbitrary: rl c H)
  case Nil
  then show ?case by simp
next
  case (Cons x calls)
  obtain gap lag where x: "x = (gap, lag)" by (cases x)
  with Cons.prems have g: "0 \<le> gap" and l: "0 \<le> lag" by auto
  from acquire_step[OF Cons.prems(1,2) g l] obtain rl1 slept where
    a: "acquire rl (c + gap) lag = Inr (rl1, slept)" and
    m1: "max_requests rl1 = max_requests rl" and w1: "time_window rl1 = time_window rl" and
    i1: "limiter_inv rl1 (c + gap + slept + lag) (H @ [c + gap + slept + lag])"
    by blast
  have "1 \<le> max_requests rl1" using m1 Cons.prems(2) by simp
  moreover have "\<forall>x\<in>set calls. 0 \<le> fst x \<and> 0 \<le> snd x" using Cons.prems(3) by simp
  ultimately obtain rl' c' adm where
    r: "acquire_calls rl1 (c + gap + slept + lag) calls = Inr (rl', c', adm)" and
    n: "length adm = length calls" and
    i2: "limiter_inv rl' c' ((H @ [c + gap + slept + lag]) @ adm)" and
    w2: "time_window rl' = time_window rl1" and m2: "max_requests rl' = max_requests rl1"
    using Cons.IH[OF i1] by blast
  have "acquire_calls rl c (x # calls) = Inr (rl', c', (c + gap + slept + lag) # adm)"
    by (simp add: x a r)
  with n i2 w1 w2 m1 m2 show ?case by simp
qed

lemma limiter_inv_fresh: "request_times rl = [] \<Longrightarrow> limiter_inv rl c []"
  by (simp add: limiter_inv_def admitted_within_def)

lemma acquire_cases:
  assumes "q = dropWhile (\<lambda>t. t < now - time_window r) (request_times r)"
  shows "acquire r now lag =
     (if max_requests r \<le> int (length q) then
        (case q of
           [] \<Rightarrow> Inl IndexError
         | oldest # _ \<Rightarrow>
            Inr (r\<lparr>request_times := q @ [now +
                    (if 0 < time_window r - (now - oldest) + 1 / 10
                     then time_window r - (now - oldest) + 1 / 10 else 0) + lag]\<rparr>,
                 if 0 < time_window r - (now - oldest) + 1 / 10
                 then time_window r - (now - oldest) + 1 / 10 else 0))
      else Inr (r\<lparr>request_times := q @ [now + lag]\<rparr>, 0))"
  unfolding acquire_def Let_def assms[symmetric] by (cases q) simp_all

lemma acquire_Inr:
  assumes "acquire r now lag = Inr (r', slept)"
    and q: "q = dropWhile (\<lambda>t. t < now - time_window r) (request_times r)"
  shows "request_times r' = q @ [now + slept + lag] \<and>
     max_requests r' = max_requests r \<and> time_window r' = time_window r \<and>
     (max_requests r \<le> int (length q) \<longrightarrow>
        q \<noteq> [] \<and> slept = time_window r - (now - hd q) + 1 / 10 \<and> 0 < slept) \<and>
     (int (length q) < max_requests r \<longrightarrow> slept = 0)"
proof (cases "max_requests r \<le> int (length q)")
  case False
  with assms(1) show ?thesis
    by (auto simp: acquire_cases[OF q])
next
  case True
  have "q \<noteq> []"
  proof
    assume "q = []"
    with True have "acquire r now lag = Inl IndexError"
      by (simp add: acquire_cases[OF q])
    with assms(1) show False by simp
  qed
  then obtain h q' where hq: "q = h # q'"
    by (cases q) auto
  have "\<not> h < now - time_window r"
    using hd_dropWhile[of "\<lambda>t. t < now - time_window r" "request_times r"] hq q
    by (metis list.distinct(1) list.sel(1))
  then have pos: "0 < time_window r - (now - h) + 1 / 10" by simp
  have "acquire r now lag =
      Inr (r\<lparr>request_times := q @ [now + (time_window r - (now - h) + 1 / 10) + lag]\<rparr>,
           time_window r - (now - h) + 1 / 10)"
    using True pos by (simp add: acquire_cases[OF q] hq)
  with assms(1) have "(Inr (r', slept) :: py_exception + rate_limiter \<times> real) =
      Inr (r\<lparr>request_times := q @ [now + (time_window r - (now - h) + 1 / 10) + lag]\<rparr>,
           time_window r - (now - h) + 1 / 10)"
    by (simp only:)
  then have "r' = r\<lparr>request_times := q @ [now + (time_window r - (now - h) + 1 / 10) + lag]\<rparr> \<and>
     slept = time_window r - (now - h) + 1 / 10"
    by (simp only: sum.inject prod.inject)
  then show ?thesis using True pos hq by simp
qed

lemma acquire_Inl:
  assumes "acquire r now lag = Inl e"
  shows "e = IndexError \<and> max_requests r \<le> 0 \<and>
   dropWhile (\<lambda>t. t < now - time_window r) (request_times r) = []"
proof -
  define q where "q = dropWhile (\<lambda>t. t < now - time_window r) (request_times r)"
  from assms have "e = IndexError \<and> max_requests r \<le> 0 \<and> q = []"
    by (auto simp: acquire_cases[OF q_def] split: if_splits list.splits)
  then show ?thesis by (simp add: q_def)
qed

lemma acquire_calls_nonpositive:
  "max_requests rl \<le> 0 \<Longrightarrow> request_times rl = [] \<Longrightarrow> calls \<noteq> [] \<Longrightarrow>
   acquire_calls rl clock calls = Inl IndexError"
  by (cases calls) (auto simp: acquire_def)

text \<open>
  Claim C1. Take a limiter with \<^verbatim>\<open>max_requests\<close> at least 1 and an empty deque, and any
  sequence of calls to \<^verbatim>\<open>acquire\<close>, made one after the other, on a clock that does not run
  backwards and with sleeps that last at least as long as asked (no gap and no lag is
  negative). Then every call returns, and no closed interval of length \<^verbatim>\<open>time_window\<close>
  holds more than \<^verbatim>\<open>max_requests\<close> of the admission times. Each call that returns has
  first dropped the timestamps older than \<open>now - time_window\<close> from the front of the deque;
  if the number left has reached \<^verbatim>\<open>max_requests\<close> it sleeps for
  \<open>time_window - (now - oldest) + 0.1\<close> seconds, which is positive, and otherwise it does
  not sleep; then it records the time of admission. A call raises only when
  \<^verbatim>\<open>max_requests\<close> is zero or negative: it then reads the head of an empty deque, so
  that a fresh limiter of that kind admits nothing at all.
\<close>

theorem rate_limiter_window_bound:
  "(1 \<le> max_requests rl \<and> request_times rl = [] \<and> (\<forall>x\<in>set calls. 0 \<le> fst x \<and> 0 \<le> snd x) \<longrightarrow>
      (\<exists>rl' clock' admitted.
          acquire_calls rl clock calls = Inr (rl', clock', admitted) \<and>
          length admitted = length calls \<and>
          (\<forall>a. admitted_within a (time_window rl) admitted \<le> nat (max_requests rl)))) \<and>
   (acquire r now lag = Inr (r', slept) \<and>
    q = dropWhile (\<lambda>t. t < now - time_window r) (request_times r) \<longrightarrow>
      request_times r' = q @ [now + slept + lag] \<and>
      (max_requests r \<le> int (length q) \<longrightarrow>
         q \<noteq> [] \<and> slept = time_window r - (now - hd q) + 1 / 10 \<and> 0 < slept) \<and>
      (int (length q) < max_requests r \<longrightarrow> slept = 0)) \<and>
   (acquire r now lag = Inl e \<longrightarrow> e = IndexError \<and> max_requests r \<le> 0) \<and>
   (max_requests rl \<le> 0 \<and> request_times rl = [] \<and> calls \<noteq> [] \<longrightarrow>
      acquire_calls rl clock calls = Inl IndexError)"
proof (intro conjI impI)
  assume a: "1 \<le> max_requests rl \<and> request_times rl = [] \<and> (\<forall>x\<in>set calls. 0 \<le> fst x \<and> 0 \<le> snd x)"
  then have "limiter_inv rl clock []" by (simp add: limiter_inv_fresh)
  from acquire_calls_inv[OF this, of calls] a obtain rl' c' adm where
    r: "acquire_calls rl clock calls = Inr (rl', c', adm)" "length adm = length calls"
       "limiter_inv rl' c' ([] @ adm)" "time_window rl' = time_window rl"
       "max_requests rl' = max_requests rl"
    by blast
  from r(3-5) have "\<forall>a. admitted_within a (time_window rl) adm \<le> nat (max_requests rl)"
    by (simp add: limiter_inv_def)
  with r(1,2) show "\<exists>rl' clock' admitted.
          acquire_calls rl clock calls = Inr (rl', clock', admitted) \<and>
          length admitted = length calls \<and>
          (\<forall>a. admitted_within a (time_window rl) admitted \<le> nat (max_requests rl))"
    by blast
next
  assume a: "acquire r now lag = Inr (r', slept) \<and>
    q = dropWhile (\<lambda>t. t < now - time_window r) (request_times r)"
  note * = acquire_Inr[of r now lag r' slept q]
  show "request_times r' = q @ [now + slept + lag]" using * a by blast
  show "q \<noteq> []" if "max_requests r \<le> int (length q)" using * a that by blast
  show "slept = time_window r - (now - hd q) + 1 / 10" if "max_requests r \<le> int (length q)"
    using * a that by blast
  show "0 < slept" if "max_requests r \<le> int (length q)" using * a that by blast
  show "slept = 0" if "int (length q) < max_requests r" using * a that by blast
next
  assume "acquire r now lag = Inl e"
  from acquire_Inl[OF this] show "e = IndexError" "max_requests r \<le> 0" by simp_all
next
  assume "max_requests rl \<le> 0 \<and> request_times rl = [] \<and> calls \<noteq> []"
  then show "acquire_calls rl clock calls = Inl IndexError"
    by (simp add: acquire_calls_nonpositive)
qed

text \<open>
  The theorem at a limiter of 2 requests in 60 seconds, called at the times 0, 50 and 50:
  the third call sleeps 10.1 seconds and is admitted at 60.1, so that the interval from 0.1
  to 60.1 holds two admissions.
\<close>

theorem rate_limiter_window_bound_witness:
  "(1::int) \<le> 2 \<and>
   acquire_calls \<lparr>max_requests = 2, time_window = 60, request_times = []\<rparr> 0 [(0, 0), (50, 0), (0, 0)] =
     Inr (\<lparr>max_requests = 2, time_window = 60, request_times = [0, 50, 601 / 10]\<rparr>, 601 / 10,
          [0, 50, 601 / 10]) \<and>
   admitted_within (1 / 10) 60 [0, 50, 601 / 10] \<le> 2 \<and>
   acquire \<lparr>max_requests = 2, time_window = 60, request_times = [0, 50]\<rparr> 50 0 =
     Inr (\<lparr>max_requests = 2, time_window = 60, request_times = [0, 50, 601 / 10]\<rparr>, 101 / 10) \<and>
   (101 / 10 :: real) = 60 - (50 - hd [0, 50]) + 1 / 10"
proof -
  let ?rl = "\<lparr>max_requests = 2, time_window = 60, request_times = []\<rparr>"
  let ?rl2 = "\<lparr>max_requests = 2, time_window = 60, request_times = [0, 50]\<rparr>"
  let ?rl3 = "\<lparr>max_requests = 2, time_window = 60, request_times = [0, 50, 601 / 10]\<rparr>"
  let ?calls = "[(0, 0), (50, 0), (0, 0)] :: (real \<times> real) list"
  have run: "acquire_calls ?rl 0 ?calls = Inr (?rl3, 601 / 10, [0, 50, 601 / 10])"
    by (simp add: acquire_def)
  have hyp: "1 \<le> max_requests ?rl \<and> request_times ?rl = [] \<and> (\<forall>x\<in>set ?calls. 0 \<le> fst x \<and> 0 \<le> snd x)"
    by simp
  have call: "acquire ?rl2 50 0 = Inr (?rl3, 101 / 10)"
    by (simp add: acquire_def)
  have q: "[0, 50] = dropWhile (\<lambda>t. t < 50 - time_window ?rl2) (request_times ?rl2)"
    by simp
  note T = rate_limiter_window_bound[of ?rl ?calls 0 ?rl2 50 0 ?rl3 "101 / 10" "[0, 50]" IndexError]
  from T hyp obtain rl' c' adm where
    r: "acquire_calls ?rl 0 ?calls = Inr (rl', c', adm)"
       "\<forall>a. admitted_within a (time_window ?rl) adm \<le> nat (max_requests ?rl)"
    by blast
  from r(1) have "adm = [0, 50, 601 / 10]" unfolding run by simp
  with r(2) have "admitted_within (1 / 10) (time_window ?rl) [0, 50, 601 / 10] \<le> nat (max_requests ?rl)"
    by blast
  then have bound: "admitted_within (1 / 10) 60 [0, 50, 601 / 10] \<le> 2"
    by simp
  from T call q have "max_requests ?rl2 \<le> int (length [0::real, 50]) \<longrightarrow> (101 / 10 :: real) = time_window ?rl2 - (50 - hd [0, 50]) + 1 / 10"
    by blast
  then have slept: "(101 / 10 :: real) = 60 - (50 - hd [0, 50]) + 1 / 10"
    by simp
  have one: "(1::int) \<le> 2" by simp
  show ?thesis using one run bound call slept by blast
qed


section \<open>Properties of the download manager\<close>

subsection \<open>File names\<close>







subsection \<open>The retry loop\<close>

declare download_loop.simps [simp del]

lemma download_loop_done:
  "\<not> int attempt < max_retries \<Longrightarrow>
   download_loop L srv url kd max_retries attempt paths mw = (Inr None, paths, mw)"
  by (simp add: download_loop.simps)

lemma download_loop_success:
  "int attempt < max_retries \<Longrightarrow>
   attempt_body L srv url kd attempt paths mw = (Inr local_path, paths', mw') \<Longrightarrow>
   download_loop L srv url kd max_retries attempt paths mw = (Inr (Some local_path), paths', mw')"
  by (simp add: download_loop.simps)

lemma download_loop_escape:
  "int attempt < max_retries \<Longrightarrow>
   attempt_body L srv url kd attempt paths mw = (Inl e, paths', mw') \<Longrightarrow> e \<noteq> RequestException \<Longrightarrow>
   download_loop L srv url kd max_retries attempt paths mw = (Inl e, paths', mw')"
  by (simp add: download_loop.simps)

lemma download_loop_retry:
  "int attempt < max_retries - 1 \<Longrightarrow>
   attempt_body L srv url kd attempt paths mw = (Inl RequestException, paths', mw') \<Longrightarrow>
   download_loop L srv url kd max_retries attempt paths mw =
     download_loop L srv url kd max_retries (attempt + 1) paths' (retry_after srv attempt mw')"
  by (simp add: download_loop.simps)

lemma download_loop_exhausted:
  "int attempt < max_retries \<Longrightarrow> \<not> int attempt < max_retries - 1 \<Longrightarrow>
   attempt_body L srv url kd attempt paths mw = (Inl RequestException, paths', mw') \<Longrightarrow>
   download_loop L srv url kd max_retries attempt paths mw =
     (Inr None, paths', fst mw', remove_temp paths' (snd mw'))"
  by (simp add: download_loop.simps)

text \<open>The five cases of one pass through the loop.\<close>

lemma download_loop_cases:
  obtains
    (over) "\<not> int attempt < max_retries"
      "download_loop L srv url kd max_retries attempt paths mw = (Inr None, paths, mw)"
  | (success) local_path paths' mw' where "int attempt < max_retries"
      "attempt_body L srv url kd attempt paths mw = (Inr local_path, paths', mw')"
      "download_loop L srv url kd max_retries attempt paths mw = (Inr (Some local_path), paths', mw')"
  | (escape) e paths' mw' where "int attempt < max_retries" "e \<noteq> RequestException"
      "attempt_body L srv url kd attempt paths mw = (Inl e, paths', mw')"
      "download_loop L srv url kd max_retries attempt paths mw = (Inl e, paths', mw')"
  | (retry) paths' mw' where "int attempt < max_retries - 1"
      "attempt_body L srv url kd attempt paths mw = (Inl RequestException, paths', mw')"
      "download_loop L srv url kd max_retries attempt paths mw =
         download_loop L srv url kd max_retries (attempt + 1) paths' (retry_after srv attempt mw')"
  | (exhausted) paths' mw' where "int attempt < max_retries" "\<not> int attempt < max_retries - 1"
      "attempt_body L srv url kd attempt paths mw = (Inl RequestException, paths', mw')"
      "download_loop L srv url kd max_retries attempt paths mw =
         (Inr None, paths', fst mw', remove_temp paths' (snd mw'))"
proof (cases "int attempt < max_retries")
  case False
  then show ?thesis using over download_loop_done by blast
next
  case lt: True
  obtain r paths' mw' where ab: "attempt_body L srv url kd attempt paths mw = (r, paths', mw')"
    by (cases "attempt_body L srv url kd attempt paths mw") auto
  show ?thesis
  proof (cases r)
    case (Inr lp)
    then show ?thesis using success lt ab download_loop_success by blast
  next
    case (Inl e)
    show ?thesis
    proof (cases "e = RequestException")
      case False
      then show ?thesis using escape lt ab Inl download_loop_escape by blast
    next
      case True
      show ?thesis
      proof (cases "int attempt < max_retries - 1")
        case True
        then show ?thesis using retry ab Inl \<open>e = RequestException\<close> download_loop_retry by blast
      next
        case False
        then show ?thesis
          using exhausted lt ab Inl \<open>e = RequestException\<close> download_loop_exhausted by blast
      qed
    qed
  qed
qed

lemma fetch_facts:
  assumes "fetch srv url attempt (lp, tp) (m, w) = (r, m', w')"
  shows "waits w' = waits w"
    and "requests w' = requests w @ [Get url (map_option length (files w tp))]"
    and "r = Inr p \<Longrightarrow> p = lp \<and> files w' lp \<noteq> None"
    and "url_mapping m' = url_mapping m"
    and "mapping_saves w' = mapping_saves w"
  using assms
  by (auto simp: fetch_def Let_def get_next_proxy_def split: get_answer.splits option.splits if_splits)

lemma probe_facts:
  assumes "probe L srv url kd attempt (m, w) = (r, m', w')"
  shows "waits w' = waits w" and "files w' = files w"
    and "requests w' = requests w @ [Head url]"
    and "url_mapping m' = url_mapping m"
    and "mapping_saves w' = mapping_saves w"
  using assms
  by (auto simp: probe_def Let_def get_next_proxy_def split: head_answer.splits if_splits)

lemma attempt_body_facts:
  assumes "attempt_body L srv url kd attempt paths (m, w) = (r, paths', m', w')"
  shows "waits w' = waits w"
    and "paths = Some q \<Longrightarrow> paths' = Some q"
    and "r = Inr p \<Longrightarrow> (\<exists>tp. paths' = Some (p, tp)) \<and> files w' p \<noteq> None"
    and "url_mapping m' = url_mapping m"
    and "mapping_saves w' = mapping_saves w"
proof -
  have "waits w' = waits w \<and> (paths = Some q \<longrightarrow> paths' = Some q) \<and>
        (r = Inr p \<longrightarrow> (\<exists>tp. paths' = Some (p, tp)) \<and> files w' p \<noteq> None) \<and>
        url_mapping m' = url_mapping m \<and> mapping_saves w' = mapping_saves w"
  proof (cases paths)
    case (Some pp)
    obtain lp tp where pp: "pp = (lp, tp)" by (cases pp)
    obtain r1 m1 w1 where f: "fetch srv url attempt (lp, tp) (m, w) = (r1, m1, w1)"
      by (cases "fetch srv url attempt (lp, tp) (m, w)") auto
    with assms Some pp have "r = r1" "paths' = Some (lp, tp)" "m' = m1" "w' = w1"
      by (simp_all add: attempt_body_def)
    with fetch_facts[OF f] Some pp show ?thesis by auto
  next
    case None
    obtain r0 m0 w0 where pr: "probe L srv url kd attempt (m, w) = (r0, m0, w0)"
      by (cases "probe L srv url kd attempt (m, w)") auto
    show ?thesis
    proof (cases r0)
      case (Inl e)
      with assms None pr have "r = Inl e" "paths' = None" "m' = m0" "w' = w0"
        by (simp_all add: attempt_body_def)
      with probe_facts[OF pr] None show ?thesis by auto
    next
      case (Inr pp)
      obtain lp tp where pp: "pp = (lp, tp)" by (cases pp)
      obtain r1 m1 w1 where f: "fetch srv url attempt (lp, tp) (m0, w0) = (r1, m1, w1)"
        by (cases "fetch srv url attempt (lp, tp) (m0, w0)") auto
      with assms None pr Inr pp have "r = r1" "paths' = Some (lp, tp)" "m' = m1" "w' = w1"
        by (simp_all add: attempt_body_def)
      with fetch_facts[OF f] probe_facts[OF pr] None show ?thesis by auto
    qed
  qed
  then show "waits w' = waits w"
    and "paths = Some q \<Longrightarrow> paths' = Some q"
    and "r = Inr p \<Longrightarrow> (\<exists>tp. paths' = Some (p, tp)) \<and> files w' p \<noteq> None"
    and "url_mapping m' = url_mapping m"
    and "mapping_saves w' = mapping_saves w"
    by blast+
qed


lemma retry_after_facts:
  assumes "retry_after srv attempt (m, w) = (m', w')"
  shows "waits w' = waits w @ [wait_time srv attempt]" and "files w' = files w"
    and "requests w' = requests w" and "url_mapping m' = url_mapping m"
    and "mapping_saves w' = mapping_saves w"
  using assms by (auto simp: retry_after_def split: if_splits)

lemma download_loop_outcome:
  "download_loop L srv url kd mr attempt paths (m, w) = (r, paths', m', w') \<Longrightarrow>
   r \<noteq> Inl RequestException \<and>
   (r = Inr None \<longrightarrow>
      (\<not> int attempt < mr \<and> paths' = paths \<and> m' = m \<and> w' = w) \<or>
      (\<forall>lp tp. paths' = Some (lp, tp) \<longrightarrow> files w' tp = None)) \<and>
   (\<forall>p. r = Inr (Some p) \<longrightarrow> (\<exists>tp. paths' = Some (p, tp)) \<and> files w' p \<noteq> None) \<and>
   url_mapping m' = url_mapping m \<and> mapping_saves w' = mapping_saves w"
proof (induction "nat (mr - int attempt)" arbitrary: attempt paths m w)
  case 0
  then have "\<not> int attempt < mr" by simp
  with 0(2) show ?case by (auto simp: download_loop_done)
next
  case (Suc n)
  show ?case
  proof (cases rule: download_loop_cases[of attempt mr L srv url kd paths "(m, w)"])
    case over
    with Suc.prems show ?thesis by auto
  next
    case (success lp p1 mw1)
    obtain m1 w1 where mw1: "mw1 = (m1, w1)" by (cases mw1)
    from success(3) Suc.prems mw1 have eq: "r = Inr (Some lp)" "paths' = p1" "m' = m1" "w' = w1"
      by simp_all
    from attempt_body_facts(3)[OF success(2)[unfolded mw1], of lp]
      attempt_body_facts(4,5)[OF success(2)[unfolded mw1]] eq
    show ?thesis by auto
  next
    case (escape e p1 mw1)
    obtain m1 w1 where mw1: "mw1 = (m1, w1)" by (cases mw1)
    from escape(4) Suc.prems mw1 have eq: "r = Inl e" "paths' = p1" "m' = m1" "w' = w1"
      by simp_all
    from attempt_body_facts(4,5)[OF escape(3)[unfolded mw1]] eq escape(2)
    show ?thesis by auto
  next
    case (exhausted p1 mw1)
    obtain m1 w1 where mw1: "mw1 = (m1, w1)" by (cases mw1)
    from exhausted(4) Suc.prems mw1
    have eq: "r = Inr None" "paths' = p1" "m' = m1" "w' = remove_temp p1 w1"
      by simp_all
    from attempt_body_facts(4,5)[OF exhausted(3)[unfolded mw1]] eq
    show ?thesis by (auto simp: remove_temp_def split: option.splits)
  next
    case (retry p1 mw1)
    obtain m1 w1 where mw1: "mw1 = (m1, w1)" by (cases mw1)
    obtain m2 w2 where ra: "retry_after srv attempt (m1, w1) = (m2, w2)"
      by (cases "retry_after srv attempt (m1, w1)") auto
    from retry(3) Suc.prems mw1 ra
    have rec: "download_loop L srv url kd mr (attempt + 1) p1 (m2, w2) = (r, paths', m', w')"
      by simp
    have "n = nat (mr - int (attempt + 1))" using Suc(2) by simp
    from Suc(1)[OF this rec] have IH: "r \<noteq> Inl RequestException \<and>
      (r = Inr None \<longrightarrow>
        (\<not> int (attempt + 1) < mr \<and> paths' = p1 \<and> m' = m2 \<and> w' = w2) \<or>
        (\<forall>lp tp. paths' = Some (lp, tp) \<longrightarrow> files w' tp = None)) \<and>
      (\<forall>p. r = Inr (Some p) \<longrightarrow> (\<exists>tp. paths' = Some (p, tp)) \<and> files w' p \<noteq> None) \<and>
      url_mapping m' = url_mapping m2 \<and> mapping_saves w' = mapping_saves w2" .
    from attempt_body_facts(4,5)[OF retry(2)[unfolded mw1]] retry_after_facts(4,5)[OF ra]
    have "url_mapping m2 = url_mapping m" "mapping_saves w2 = mapping_saves w" by simp_all
    with IH retry(1) show ?thesis by auto
  qed
qed

lemma download_loop_waits:
  "download_loop L srv url kd mr attempt paths (m, w) = (r, paths', m', w') \<Longrightarrow>
   \<exists>n. waits w' = waits w @ map (wait_time srv) [attempt..<attempt + n] \<and>
       (n = 0 \<or> int (attempt + n) < mr)"
proof (induction "nat (mr - int attempt)" arbitrary: attempt paths m w)
  case 0
  then have "\<not> int attempt < mr" by simp
  with 0(2) have "waits w' = waits w @ map (wait_time srv) [attempt..<attempt + 0]"
    by (simp add: download_loop_done)
  then show ?case by blast
next
  case (Suc n)
  show ?case
  proof (cases rule: download_loop_cases[of attempt mr L srv url kd paths "(m, w)"])
    case over
    with Suc.prems have "waits w' = waits w @ map (wait_time srv) [attempt..<attempt + 0]" by simp
    then show ?thesis by blast
  next
    case (success lp p1 mw1)
    obtain m1 w1 where mw1: "mw1 = (m1, w1)" by (cases mw1)
    from success(3) Suc.prems mw1 have "w' = w1" by simp
    with attempt_body_facts(1)[OF success(2)[unfolded mw1]]
    have "waits w' = waits w @ map (wait_time srv) [attempt..<attempt + 0]" by simp
    then show ?thesis by blast
  next
    case (escape e p1 mw1)
    obtain m1 w1 where mw1: "mw1 = (m1, w1)" by (cases mw1)
    from escape(4) Suc.prems mw1 have "w' = w1" by simp
    with attempt_body_facts(1)[OF escape(3)[unfolded mw1]]
    have "waits w' = waits w @ map (wait_time srv) [attempt..<attempt + 0]" by simp
    then show ?thesis by blast
  next
    case (exhausted p1 mw1)
    obtain m1 w1 where mw1: "mw1 = (m1, w1)" by (cases mw1)
    from exhausted(4) Suc.prems mw1 have "w' = remove_temp p1 w1" by simp
    with attempt_body_facts(1)[OF exhausted(3)[unfolded mw1]]
    have "waits w' = waits w @ map (wait_time srv) [attempt..<attempt + 0]"
      by (simp add: remove_temp_def split: option.splits)
    then show ?thesis by blast
  next
    case (retry p1 mw1)
    obtain m1 w1 where mw1: "mw1 = (m1, w1)" by (cases mw1)
    obtain m2 w2 where ra: "retry_after srv attempt (m1, w1) = (m2, w2)"
      by (cases "retry_after srv attempt (m1, w1)") auto
    from retry(3) Suc.prems mw1 ra
    have rec: "download_loop L srv url kd mr (attempt + 1) p1 (m2, w2) = (r, paths', m', w')"
      by simp
    have "n = nat (mr - int (attempt + 1))" using Suc(2) by simp
    from Suc(1)[OF this rec] obtain k where
      k: "waits w' = waits w2 @ map (wait_time srv) [attempt + 1..<attempt + 1 + k]"
         "k = 0 \<or> int (attempt + 1 + k) < mr"
      by blast
    have w2: "waits w2 = waits w @ [wait_time srv attempt]"
      using attempt_body_facts(1)[OF retry(2)[unfolded mw1]] retry_after_facts(1)[OF ra] by simp
    have "[attempt..<attempt + Suc k] = attempt # [attempt + 1..<attempt + 1 + k]"
      by (simp add: upt_rec)
    with k(1) w2 have "waits w' = waits w @ map (wait_time srv) [attempt..<attempt + Suc k]"
      by simp
    moreover have "int (attempt + Suc k) < mr" using k(2) retry(1) by auto
    ultimately show ?thesis by blast
  qed
qed

text \<open>When every attempt raises a RequestException, all attempts are made.\<close>

lemma download_loop_all_fail:
  assumes fail: "\<And>k p s. fst (attempt_body L srv url kd k p s) = Inl RequestException"
  shows "int attempt < mr \<Longrightarrow>
   download_loop L srv url kd mr attempt paths (m, w) = (r, paths', m', w') \<Longrightarrow>
   r = Inr None \<and> waits w' = waits w @ map (wait_time srv) [attempt..<nat (mr - 1)]"
proof (induction "nat (mr - int attempt)" arbitrary: attempt paths m w)
  case 0
  then show ?case by simp
next
  case (Suc n)
  show ?case
  proof (cases rule: download_loop_cases[of attempt mr L srv url kd paths "(m, w)"])
    case over
    with Suc.prems show ?thesis by simp
  next
    case (success lp p1 mw1)
    with fail[of attempt paths "(m, w)"] show ?thesis by simp
  next
    case (escape e p1 mw1)
    with fail[of attempt paths "(m, w)"] show ?thesis by simp
  next
    case (exhausted p1 mw1)
    obtain m1 w1 where mw1: "mw1 = (m1, w1)" by (cases mw1)
    from exhausted(4) Suc.prems mw1 have eq: "r = Inr None" "w' = remove_temp p1 w1" by simp_all
    have "[attempt..<nat (mr - 1)] = []" using exhausted(2) by simp
    with attempt_body_facts(1)[OF exhausted(3)[unfolded mw1]] eq
    show ?thesis by (simp add: remove_temp_def split: option.splits)
  next
    case (retry p1 mw1)
    obtain m1 w1 where mw1: "mw1 = (m1, w1)" by (cases mw1)
    obtain m2 w2 where ra: "retry_after srv attempt (m1, w1) = (m2, w2)"
      by (cases "retry_after srv attempt (m1, w1)") auto
    from retry(3) Suc.prems mw1 ra
    have rec: "download_loop L srv url kd mr (attempt + 1) p1 (m2, w2) = (r, paths', m', w')"
      by simp
    have n: "n = nat (mr - int (attempt + 1))" using Suc(2) by simp
    have lt: "int (attempt + 1) < mr" using retry(1) by simp
    from Suc(1)[OF n lt rec]
    have IH: "r = Inr None" "waits w' = waits w2 @ map (wait_time srv) [attempt + 1..<nat (mr - 1)]"
      by simp_all
    have w2: "waits w2 = waits w @ [wait_time srv attempt]"
      using attempt_body_facts(1)[OF retry(2)[unfolded mw1]] retry_after_facts(1)[OF ra] by simp
    have "[attempt..<nat (mr - 1)] = attempt # [attempt + 1..<nat (mr - 1)]"
      using retry(1) by (simp add: upt_rec)
    with IH w2 show ?thesis by simp
  qed
qed

text \<open>The definitions that evaluate a call on concrete answers of the network.\<close>

lemmas download_eval =
  download_with_retry_def download_loop.simps attempt_body_def probe_def fetch_def Let_def
  retry_after_def get_next_proxy_def remove_temp_def init_manager_def empty_world_def
  extract_filename_from_response_def header_def filename_from_url_def filename_from_type_def
  path_name_def path_join_def wait_time_def backoff_base_def

text \<open>
  Claim C3, as the code has it. The loop catches a \<^verbatim>\<open>RequestException\<close> and nothing
  else. \<^verbatim>\<open>download_with_retry\<close> never lets a \<^verbatim>\<open>RequestException\<close> out. When it
  returns \<^verbatim>\<open>None\<close>, no temporary file is left under the temporary path of the call;
  when it returns a path, a file is there under that path. When every attempt fails with a
  \<^verbatim>\<open>RequestException\<close>, the call makes all its attempts, waiting after each but the last,
  deletes the temporary file and returns \<^verbatim>\<open>None\<close>. An exception of another kind is not
  caught: at whatever attempt it is raised, it leaves the function at once, with the paths,
  the manager and the files as the attempt left them, the temporary file included.
\<close>

theorem download_failure_reported:
  "(download_with_retry L srv url kd mr (m, w) = (r, paths', m', w') \<longrightarrow>
      r \<noteq> Inl RequestException \<and>
      (r = Inr None \<longrightarrow> (\<forall>lp tp. paths' = Some (lp, tp) \<longrightarrow> files w' tp = None)) \<and>
      (\<forall>p. r = Inr (Some p) \<longrightarrow> (\<exists>tp. paths' = Some (p, tp)) \<and> files w' p \<noteq> None)) \<and>
   ((\<forall>k p s. fst (attempt_body L srv url kd k p s) = Inl RequestException) \<and>
    download_with_retry L srv url kd mr (m, w) = (r, paths', m', w') \<longrightarrow>
      r = Inr None \<and> (\<forall>lp tp. paths' = Some (lp, tp) \<longrightarrow> files w' tp = None) \<and>
      length (waits w') = length (waits w) + nat (mr - 1)) \<and>
   (0 < mr \<and> fst (attempt_body L srv url kd 0 None (m, w)) = Inl OtherException \<longrightarrow>
      fst (download_with_retry L srv url kd mr (m, w)) = Inl OtherException) \<and>
   (int attempt < mr \<and> e \<noteq> RequestException \<and>
    attempt_body L srv url kd attempt paths mw = (Inl e, paths1, mw1) \<longrightarrow>
      download_loop L srv url kd mr attempt paths mw = (Inl e, paths1, mw1))"
proof (intro conjI impI)
  assume run: "download_with_retry L srv url kd mr (m, w) = (r, paths', m', w')"
  note out = download_loop_outcome[OF run[unfolded download_with_retry_def]]
  show "r \<noteq> Inl RequestException" using out by blast
  show "\<forall>lp tp. paths' = Some (lp, tp) \<longrightarrow> files w' tp = None" if "r = Inr None"
    using out that by auto
  show "\<forall>p. r = Inr (Some p) \<longrightarrow> (\<exists>tp. paths' = Some (p, tp)) \<and> files w' p \<noteq> None"
    using out by blast
next
  assume a: "(\<forall>k p s. fst (attempt_body L srv url kd k p s) = Inl RequestException) \<and>
    download_with_retry L srv url kd mr (m, w) = (r, paths', m', w')"
  then have run: "download_loop L srv url kd mr 0 None (m, w) = (r, paths', m', w')"
    by (simp add: download_with_retry_def)
  have r: "r = Inr None \<and> waits w' = waits w @ map (wait_time srv) [0..<nat (mr - 1)]"
  proof (cases "0 < mr")
    case True
    then have "int 0 < mr" by simp
    from download_loop_all_fail[OF _ this run] a show ?thesis by blast
  next
    case False
    then have "\<not> int 0 < mr" by simp
    from download_loop_done[OF this, of L srv url kd None "(m, w)"] run False
    show ?thesis by auto
  qed
  then show "r = Inr None" by simp
  with download_loop_outcome[OF run]
  show "\<forall>lp tp. paths' = Some (lp, tp) \<longrightarrow> files w' tp = None" by auto
  show "length (waits w') = length (waits w) + nat (mr - 1)" using r by simp
next
  assume a: "0 < mr \<and> fst (attempt_body L srv url kd 0 None (m, w)) = Inl OtherException"
  then obtain p1 mw1 where ab: "attempt_body L srv url kd 0 None (m, w) = (Inl OtherException, p1, mw1)"
    by (cases "attempt_body L srv url kd 0 None (m, w)") auto
  from a have "int 0 < mr" by simp
  from download_loop_escape[OF this ab]
  show "fst (download_with_retry L srv url kd mr (m, w)) = Inl OtherException"
    by (simp add: download_with_retry_def)
next
  assume a: "int attempt < mr \<and> e \<noteq> RequestException \<and>
    attempt_body L srv url kd attempt paths mw = (Inl e, paths1, mw1)"
  then show "download_loop L srv url kd mr attempt paths mw = (Inl e, paths1, mw1)"
    using download_loop_escape[of attempt mr L srv url kd paths mw e paths1 mw1] by blast
qed

lemma backoff_base_mono: "a \<le> b \<Longrightarrow> backoff_base a \<le> backoff_base b"
  by (simp add: backoff_base_def min_def)

lemma backoff_base_first: "map backoff_base [0..<6] = [1, 2, 4, 8, 16, 32]"
  by (simp add: backoff_base_def upt_rec)

text \<open>
  Claim C7. The wait after the failed attempt number \<open>k\<close> is \<open>2 ^ min k 5\<close> seconds plus
  the jitter, so it lies between that power of two and the same plus one when the jitter is
  in \<open>[0, 1)\<close>. The base waits of the attempts 0 to 5 are 1, 2, 4, 8, 16, 32, and the base wait
  never decreases with the attempt number. In every call of \<^verbatim>\<open>download_with_retry\<close> the
  waits are those of the attempts 0, 1, 2, ... in order, one after each failed attempt that
  is retried; when all attempts fail, there is one after each attempt but the last.
\<close>

theorem backoff_wait_times:
  "wait_time srv k = 2 ^ min k 5 + jitter srv k \<and>
   (0 \<le> jitter srv k \<and> jitter srv k < 1 \<longrightarrow>
      real (backoff_base k) \<le> wait_time srv k \<and> wait_time srv k < real (backoff_base k) + 1) \<and>
   map backoff_base [0..<6] = [1, 2, 4, 8, 16, 32] \<and>
   (a \<le> b \<longrightarrow> backoff_base a \<le> backoff_base b) \<and>
   (download_with_retry L srv url kd mr (m, w) = (r, paths', m', w') \<longrightarrow>
      (\<exists>n. waits w' = waits w @ map (wait_time srv) [0..<n] \<and> (n = 0 \<or> int n < mr))) \<and>
   ((\<forall>k p s. fst (attempt_body L srv url kd k p s) = Inl RequestException) \<and> 0 < mr \<and>
    download_with_retry L srv url kd mr (m, w) = (r, paths', m', w') \<longrightarrow>
      waits w' = waits w @ map (wait_time srv) [0..<nat (mr - 1)])"
proof (intro conjI impI)
  show "wait_time srv k = 2 ^ min k 5 + jitter srv k"
    by (simp add: wait_time_def backoff_base_def)
  show "real (backoff_base k) \<le> wait_time srv k" if "0 \<le> jitter srv k \<and> jitter srv k < 1"
    using that by (simp add: wait_time_def)
  show "wait_time srv k < real (backoff_base k) + 1" if "0 \<le> jitter srv k \<and> jitter srv k < 1"
    using that by (simp add: wait_time_def)
  show "map backoff_base [0..<6] = [1, 2, 4, 8, 16, 32]" by (rule backoff_base_first)
  show "backoff_base a \<le> backoff_base b" if "a \<le> b" using that by (rule backoff_base_mono)
next
  assume run: "download_with_retry L srv url kd mr (m, w) = (r, paths', m', w')"
  from download_loop_waits[OF run[unfolded download_with_retry_def]]
  show "\<exists>n. waits w' = waits w @ map (wait_time srv) [0..<n] \<and> (n = 0 \<or> int n < mr)"
    by simp
next
  assume a: "(\<forall>k p s. fst (attempt_body L srv url kd k p s) = Inl RequestException) \<and> 0 < mr \<and>
    download_with_retry L srv url kd mr (m, w) = (r, paths', m', w')"
  then have run: "download_loop L srv url kd mr 0 None (m, w) = (r, paths', m', w')"
    and "int 0 < mr"
    by (simp_all add: download_with_retry_def)
  from download_loop_all_fail[OF _ this(2) run] a
  show "waits w' = waits w @ map (wait_time srv) [0..<nat (mr - 1)]" by blast
qed


text \<open>
  The theorem for C3 at a server that answers the probe and breaks every transfer after
  two bytes, with three attempts: the call returns \<^verbatim>\<open>None\<close> and the temporary file
  \<^verbatim>\<open>download/dog/cat.png.tmp\<close> is gone. At a server whose first transfer ends in an
  exception of another kind, that exception leaves the call.
\<close>

theorem download_failure_reported_witness:
  "(\<forall>k p s. fst (attempt_body
       \<lparr>unquote = (\<lambda>s. s), urlparse_path = (\<lambda>u. ''/img/cat.png''), md5_hexdigest = (\<lambda>u. [])\<rparr>
       \<lparr>on_head = (\<lambda>k. HeadOk Map.empty),
         on_get = (\<lambda>k r. GetStream ''ab'' (Some RequestException)), jitter = (\<lambda>k. 0)\<rparr>
       ''https://example.com/img/cat.png'' ''download/dog'' k p s) = Inl RequestException) \<and>
   fst (download_with_retry
       \<lparr>unquote = (\<lambda>s. s), urlparse_path = (\<lambda>u. ''/img/cat.png''), md5_hexdigest = (\<lambda>u. [])\<rparr>
       \<lparr>on_head = (\<lambda>k. HeadOk Map.empty),
         on_get = (\<lambda>k r. GetStream ''ab'' (Some RequestException)), jitter = (\<lambda>k. 0)\<rparr>
       ''https://example.com/img/cat.png'' ''download/dog'' 3
       (init_manager empty_world, empty_world)) = Inr None \<and>
   fst (snd (download_with_retry
       \<lparr>unquote = (\<lambda>s. s), urlparse_path = (\<lambda>u. ''/img/cat.png''), md5_hexdigest = (\<lambda>u. [])\<rparr>
       \<lparr>on_head = (\<lambda>k. HeadOk Map.empty),
         on_get = (\<lambda>k r. GetStream ''ab'' (Some RequestException)), jitter = (\<lambda>k. 0)\<rparr>
       ''https://example.com/img/cat.png'' ''download/dog'' 3
       (init_manager empty_world, empty_world))) =
     Some (''download/dog/cat.png'', ''download/dog/cat.png.tmp'') \<and>
   files (snd (snd (snd (download_with_retry
       \<lparr>unquote = (\<lambda>s. s), urlparse_path = (\<lambda>u. ''/img/cat.png''), md5_hexdigest = (\<lambda>u. [])\<rparr>
       \<lparr>on_head = (\<lambda>k. HeadOk Map.empty),
         on_get = (\<lambda>k r. GetStream ''ab'' (Some RequestException)), jitter = (\<lambda>k. 0)\<rparr>
       ''https://example.com/img/cat.png'' ''download/dog'' 3
       (init_manager empty_world, empty_world))))) ''download/dog/cat.png.tmp'' = None \<and>
   (0::int) < 3 \<and>
   fst (attempt_body
       \<lparr>unquote = (\<lambda>s. s), urlparse_path = (\<lambda>u. ''/img/cat.png''), md5_hexdigest = (\<lambda>u. [])\<rparr>
       \<lparr>on_head = (\<lambda>k. HeadOk Map.empty),
         on_get = (\<lambda>k r. GetStream ''ab'' (Some OtherException)), jitter = (\<lambda>k. 0)\<rparr>
       ''https://example.com/img/cat.png'' ''download/dog'' 0 None
       (init_manager empty_world, empty_world)) = Inl OtherException \<and>
   fst (download_with_retry
       \<lparr>unquote = (\<lambda>s. s), urlparse_path = (\<lambda>u. ''/img/cat.png''), md5_hexdigest = (\<lambda>u. [])\<rparr>
       \<lparr>on_head = (\<lambda>k. HeadOk Map.empty),
         on_get = (\<lambda>k r. GetStream ''ab'' (Some OtherException)), jitter = (\<lambda>k. 0)\<rparr>
       ''https://example.com/img/cat.png'' ''download/dog'' 3
       (init_manager empty_world, empty_world)) = Inl OtherException"
proof -
  let ?L = "\<lparr>unquote = (\<lambda>s. s), urlparse_path = (\<lambda>u. ''/img/cat.png''), md5_hexdigest = (\<lambda>u. [])\<rparr>"
  let ?srv = "\<lparr>on_head = (\<lambda>k. HeadOk Map.empty),
         on_get = (\<lambda>k r. GetStream ''ab'' (Some RequestException)), jitter = (\<lambda>k. 0)\<rparr>"
  let ?srv2 = "\<lparr>on_head = (\<lambda>k. HeadOk Map.empty),
         on_get = (\<lambda>k r. GetStream ''ab'' (Some OtherException)), jitter = (\<lambda>k. 0)\<rparr>"
  let ?url = "''https://example.com/img/cat.png''"
  let ?run = "download_with_retry ?L ?srv ?url ''download/dog'' 3 (init_manager empty_world, empty_world)"
  have fail: "\<forall>k p s. fst (attempt_body ?L ?srv ?url ''download/dog'' k p s) = Inl RequestException"
    by (auto simp: attempt_body_def probe_def fetch_def Let_def split: option.splits prod.splits)
  obtain r paths' m' w' where run: "?run = (r, paths', m', w')"
    by (cases ?run) auto
  have paths: "paths' = Some (''download/dog/cat.png'', ''download/dog/cat.png.tmp'')"
    using run
    by (simp add: download_eval)
  note T = download_failure_reported[of ?L ?srv ?url "''download/dog''" 3 "init_manager empty_world"
      empty_world r paths' m' w', THEN conjunct2, THEN conjunct1]
  from T fail run have r: "r = Inr None"
    and gone: "\<forall>lp tp. paths' = Some (lp, tp) \<longrightarrow> files w' tp = None"
    by blast+
  from gone paths have tmp: "files w' ''download/dog/cat.png.tmp'' = None" by blast
  have other: "(0::int) < 3 \<and>
      fst (attempt_body ?L ?srv2 ?url ''download/dog'' 0 None (init_manager empty_world, empty_world))
        = Inl OtherException"
    by (simp add: attempt_body_def probe_def fetch_def Let_def)
  note U = download_failure_reported[of ?L ?srv2 ?url "''download/dog''" 3 "init_manager empty_world"
      empty_world, THEN conjunct2, THEN conjunct2, THEN conjunct1]
  from U other
  have out: "fst (download_with_retry ?L ?srv2 ?url ''download/dog'' 3
      (init_manager empty_world, empty_world)) = Inl OtherException"
    by (rule mp)
  from fail r paths tmp other out show ?thesis unfolding run by simp
qed

text \<open>
  The claim as the specification states it, that no exception leaves the call when all its
  attempts fail, fails when an attempt fails in another way than by a
  \<^verbatim>\<open>RequestException\<close>. With three attempts, the connection breaks after two bytes in the
  first two, and in the third the transfer ends in an exception of another kind, such as
  the \<^verbatim>\<open>OSError\<close> of a write to a full disk. All three attempts are made and fail; the
  exception leaves the call, and the temporary file stays, with the six bytes received.
\<close>

theorem uncaught_failure_counterexample:
  "fst (download_with_retry
       \<lparr>unquote = (\<lambda>s. s), urlparse_path = (\<lambda>u. ''/img/cat.png''), md5_hexdigest = (\<lambda>u. [])\<rparr>
       \<lparr>on_head = (\<lambda>k. HeadOk Map.empty),
         on_get = (\<lambda>k r. GetStream ''ab''
                     (Some (if k < 2 then RequestException else OtherException))),
         jitter = (\<lambda>k. 0)\<rparr>
       ''https://example.com/img/cat.png'' ''download/dog'' 3
       (init_manager empty_world, empty_world)) = Inl OtherException \<and>
   requests (snd (snd (snd (download_with_retry
       \<lparr>unquote = (\<lambda>s. s), urlparse_path = (\<lambda>u. ''/img/cat.png''), md5_hexdigest = (\<lambda>u. [])\<rparr>
       \<lparr>on_head = (\<lambda>k. HeadOk Map.empty),
         on_get = (\<lambda>k r. GetStream ''ab''
                     (Some (if k < 2 then RequestException else OtherException))),
         jitter = (\<lambda>k. 0)\<rparr>
       ''https://example.com/img/cat.png'' ''download/dog'' 3
       (init_manager empty_world, empty_world))))) =
     [Head ''https://example.com/img/cat.png'', Get ''https://example.com/img/cat.png'' None,
      Get ''https://example.com/img/cat.png'' (Some 2),
      Get ''https://example.com/img/cat.png'' (Some 4)] \<and>
   files (snd (snd (snd (download_with_retry
       \<lparr>unquote = (\<lambda>s. s), urlparse_path = (\<lambda>u. ''/img/cat.png''), md5_hexdigest = (\<lambda>u. [])\<rparr>
       \<lparr>on_head = (\<lambda>k. HeadOk Map.empty),
         on_get = (\<lambda>k r. GetStream ''ab''
                     (Some (if k < 2 then RequestException else OtherException))),
         jitter = (\<lambda>k. 0)\<rparr>
       ''https://example.com/img/cat.png'' ''download/dog'' 3
       (init_manager empty_world, empty_world))))) ''download/dog/cat.png.tmp'' = Some ''ababab''"
  by (simp add: download_eval)

text \<open>
  The theorem for C7 at a server that refuses every transfer, with the default of ten
  attempts and a jitter of half a second: nine waits, of 1.5, 2.5, 4.5, 8.5, 16.5 and four
  times 32.5 seconds.
\<close>

theorem backoff_wait_times_witness:
  "(\<forall>k p s. fst (attempt_body
       \<lparr>unquote = (\<lambda>s. s), urlparse_path = (\<lambda>u. ''/img/cat.png''), md5_hexdigest = (\<lambda>u. [])\<rparr>
       \<lparr>on_head = (\<lambda>k. HeadOk Map.empty),
         on_get = (\<lambda>k r. GetRaises RequestException), jitter = (\<lambda>k. 1 / 2)\<rparr>
       ''https://example.com/img/cat.png'' ''download/dog'' k p s) = Inl RequestException) \<and>
   waits (snd (snd (snd (download_with_retry
       \<lparr>unquote = (\<lambda>s. s), urlparse_path = (\<lambda>u. ''/img/cat.png''), md5_hexdigest = (\<lambda>u. [])\<rparr>
       \<lparr>on_head = (\<lambda>k. HeadOk Map.empty),
         on_get = (\<lambda>k r. GetRaises RequestException), jitter = (\<lambda>k. 1 / 2)\<rparr>
       ''https://example.com/img/cat.png'' ''download/dog'' 10
       (init_manager empty_world, empty_world))))) =
     [3 / 2, 5 / 2, 9 / 2, 17 / 2, 33 / 2, 65 / 2, 65 / 2, 65 / 2, 65 / 2] \<and>
   (3::nat) \<le> 7 \<and> backoff_base 3 \<le> backoff_base 7 \<and>
   (0::real) \<le> 1 / 2 \<and> (1 / 2 :: real) < 1 \<and>
   wait_time \<lparr>on_head = (\<lambda>k. HeadOk Map.empty),
         on_get = (\<lambda>k r. GetRaises RequestException), jitter = (\<lambda>k. 1 / 2)\<rparr> 7 < 33"
proof -
  let ?L = "\<lparr>unquote = (\<lambda>s. s), urlparse_path = (\<lambda>u. ''/img/cat.png''), md5_hexdigest = (\<lambda>u. [])\<rparr>"
  let ?srv = "\<lparr>on_head = (\<lambda>k. HeadOk Map.empty),
         on_get = (\<lambda>k r. GetRaises RequestException), jitter = (\<lambda>k. 1 / 2)\<rparr>"
  let ?url = "''https://example.com/img/cat.png''"
  let ?run = "download_with_retry ?L ?srv ?url ''download/dog'' 10 (init_manager empty_world, empty_world)"
  have fail: "\<forall>k p s. fst (attempt_body ?L ?srv ?url ''download/dog'' k p s) = Inl RequestException"
    by (auto simp: attempt_body_def probe_def fetch_def Let_def split: option.splits prod.splits)
  obtain r paths' m' w' where run: "?run = (r, paths', m', w')"
    by (cases ?run) auto
  note T = backoff_wait_times[of ?srv 7 3 7 ?L ?url "''download/dog''" 10 "init_manager empty_world"
      empty_world r paths' m' w']
  from T fail run have "waits w' = waits empty_world @ map (wait_time ?srv) [0..<nat (10 - 1)]"
    by simp
  then have w: "waits w' = [3 / 2, 5 / 2, 9 / 2, 17 / 2, 33 / 2, 65 / 2, 65 / 2, 65 / 2, 65 / 2]"
    by (simp add: empty_world_def wait_time_def backoff_base_def upt_rec)
  from T have mono: "backoff_base 3 \<le> backoff_base 7" by simp
  have j: "(0::real) \<le> jitter ?srv 7 \<and> jitter ?srv 7 < 1" by simp
  from T j have "wait_time ?srv 7 < real (backoff_base 7) + 1" by blast
  then have lt: "wait_time ?srv 7 < 33" by (simp add: backoff_base_def)
  show ?thesis using fail w mono lt unfolding run by simp
qed

subsection \<open>One task\<close>

lemma strip_chars_Nil_iff: "strip_chars p s = [] \<longleftrightarrow> (\<forall>c\<in>set s. p c)"
proof -
  have "strip_chars p s = [] \<longleftrightarrow> dropWhile p (rev (dropWhile p s)) = []"
    by (simp add: strip_chars_def)
  also have "\<dots> \<longleftrightarrow> (\<forall>c\<in>set (dropWhile p s). p c)"
    by simp
  also have "\<dots> \<longleftrightarrow> dropWhile p s = []"
  proof
    assume a: "\<forall>c\<in>set (dropWhile p s). p c"
    show "dropWhile p s = []"
    proof (rule ccontr)
      assume n: "dropWhile p s \<noteq> []"
      then have "\<not> p (hd (dropWhile p s))" by (rule hd_dropWhile)
      moreover have "hd (dropWhile p s) \<in> set (dropWhile p s)" using n by simp
      ultimately show False using a by blast
    qed
  next
    assume "dropWhile p s = []"
    then show "\<forall>c\<in>set (dropWhile p s). p c" by (auto dest: set_dropWhileD)
  qed
  also have "\<dots> \<longleftrightarrow> (\<forall>c\<in>set s. p c)"
    by simp
  finally show ?thesis .
qed

lemma process_single_url_blank:
  "strip url = [] \<Longrightarrow> process_single_url L srv url kd (m, w) = (None, m, w)"
  by (simp add: process_single_url_def)

lemma process_single_url_copy:
  "strip url \<noteq> [] \<Longrightarrow> url_mapping m (strip url) = Some src \<Longrightarrow> files w src = Some content \<Longrightarrow>
   process_single_url L srv url kd (m, w) =
     (None, m,
      if files w (path_join kd (path_name src)) = None
      then w\<lparr>files := (files w)(path_join kd (path_name src) \<mapsto> content)\<rparr> else w)"
  by (simp add: process_single_url_def Let_def)

lemma process_single_url_download:
  "strip url \<noteq> [] \<Longrightarrow>
   url_mapping m (strip url) = None \<or>
     (\<exists>src. url_mapping m (strip url) = Some src \<and> files w src = None) \<Longrightarrow>
   process_single_url L srv url kd (m, w) =
     after_download (strip url) (download_with_retry L srv (strip url) kd 10 (m, w))"
  by (auto simp: process_single_url_def Let_def)

lemma fetch_requests:
  "fetch srv url attempt p (m, w) = (r, m', w') \<Longrightarrow> \<exists>rest. requests w' = requests w @ rest"
  by (cases p) (simp add: fetch_facts(2))

lemma attempt_body_requests:
  assumes "attempt_body L srv url kd attempt paths (m, w) = (r, paths', m', w')"
  shows "\<exists>rest. requests w' = requests w @ rest \<and>
           (paths = None \<longrightarrow> rest \<noteq> [] \<and> hd rest = Head url)"
proof (cases paths)
  case (Some pp)
  obtain r1 m1 w1 where f: "fetch srv url attempt pp (m, w) = (r1, m1, w1)"
    by (cases "fetch srv url attempt pp (m, w)") auto
  with assms Some have "w' = w1" by (simp add: attempt_body_def)
  with fetch_requests[OF f] Some show ?thesis by auto
next
  case None
  obtain r0 m0 w0 where pr: "probe L srv url kd attempt (m, w) = (r0, m0, w0)"
    by (cases "probe L srv url kd attempt (m, w)") auto
  note p = probe_facts(3)[OF pr]
  show ?thesis
  proof (cases r0)
    case (Inl e)
    with assms None pr have "w' = w0" by (simp add: attempt_body_def)
    with p show ?thesis by auto
  next
    case (Inr pp)
    obtain r1 m1 w1 where f: "fetch srv url attempt pp (m0, w0) = (r1, m1, w1)"
      by (cases "fetch srv url attempt pp (m0, w0)") auto
    with assms None pr Inr have "w' = w1" by (simp add: attempt_body_def)
    with fetch_requests[OF f] p show ?thesis by auto
  qed
qed

lemma download_loop_requests:
  "download_loop L srv url kd mr attempt paths (m, w) = (r, paths', m', w') \<Longrightarrow>
   \<exists>rest. requests w' = requests w @ rest \<and>
      (int attempt < mr \<and> paths = None \<longrightarrow> rest \<noteq> [] \<and> hd rest = Head url)"
proof (induction "nat (mr - int attempt)" arbitrary: attempt paths m w)
  case 0
  then have "\<not> int attempt < mr" by simp
  with 0(2) show ?case by (auto simp: download_loop_done)
next
  case (Suc n)
  show ?case
  proof (cases rule: download_loop_cases[of attempt mr L srv url kd paths "(m, w)"])
    case over
    with Suc.prems show ?thesis by auto
  next
    case (success lp p1 mw1)
    obtain m1 w1 where mw1: "mw1 = (m1, w1)" by (cases mw1)
    from success(3) Suc.prems mw1 have "w' = w1" by simp
    with attempt_body_requests[OF success(2)[unfolded mw1]] show ?thesis by auto
  next
    case (escape e p1 mw1)
    obtain m1 w1 where mw1: "mw1 = (m1, w1)" by (cases mw1)
    from escape(4) Suc.prems mw1 have "w' = w1" by simp
    with attempt_body_requests[OF escape(3)[unfolded mw1]] show ?thesis by auto
  next
    case (exhausted p1 mw1)
    obtain m1 w1 where mw1: "mw1 = (m1, w1)" by (cases mw1)
    from exhausted(4) Suc.prems mw1 have "w' = remove_temp p1 w1" by simp
    then have "requests w' = requests w1" by (simp add: remove_temp_def split: option.splits)
    with attempt_body_requests[OF exhausted(3)[unfolded mw1]] show ?thesis by auto
  next
    case (retry p1 mw1)
    obtain m1 w1 where mw1: "mw1 = (m1, w1)" by (cases mw1)
    obtain m2 w2 where ra: "retry_after srv attempt (m1, w1) = (m2, w2)"
      by (cases "retry_after srv attempt (m1, w1)") auto
    from retry(3) Suc.prems mw1 ra
    have rec: "download_loop L srv url kd mr (attempt + 1) p1 (m2, w2) = (r, paths', m', w')"
      by simp
    have "n = nat (mr - int (attempt + 1))" using Suc(2) by simp
    from Suc(1)[OF this rec] obtain rest2 where r2: "requests w' = requests w2 @ rest2" by blast
    from attempt_body_requests[OF retry(2)[unfolded mw1]] obtain rest1 where
      r1: "requests w1 = requests w @ rest1" "paths = None \<longrightarrow> rest1 \<noteq> [] \<and> hd rest1 = Head url"
      by blast
    from r1 r2 retry_after_facts(3)[OF ra]
    have "requests w' = requests w @ (rest1 @ rest2) \<and>
      (int attempt < mr \<and> paths = None \<longrightarrow> rest1 @ rest2 \<noteq> [] \<and> hd (rest1 @ rest2) = Head url)"
      by auto
    then show ?thesis by blast
  qed
qed

text \<open>
  Claim C10. The stripped URL is empty exactly when every character of the URL is white
  space, the empty URL included. For such a URL \<^verbatim>\<open>_process_single_url\<close> returns at once:
  the manager, with its mapping, and the world, with its files and the list of requests
  sent, are what they were.
\<close>

theorem blank_url_is_skipped:
  "(strip url = [] \<longleftrightarrow> (\<forall>c\<in>set url. is_space c)) \<and>
   (strip url = [] \<longrightarrow> process_single_url L srv url kd (m, w) = (None, m, w))"
  by (simp add: strip_def strip_chars_Nil_iff process_single_url_blank)

text \<open>The theorem at a URL made of a space, a tab and a newline.\<close>

theorem blank_url_is_skipped_witness:
  "strip [CHR 0x20, CHR 0x09, CHR 0x0A] = [] \<and>
   process_single_url
      \<lparr>unquote = (\<lambda>s. s), urlparse_path = (\<lambda>u. u), md5_hexdigest = (\<lambda>u. [])\<rparr>
      \<lparr>on_head = (\<lambda>k. HeadOk Map.empty), on_get = (\<lambda>k r. GetStream ''ab'' None), jitter = (\<lambda>k. 0)\<rparr>
      [CHR 0x20, CHR 0x09, CHR 0x0A] ''download/dog'' (init_manager empty_world, empty_world) =
     (None, init_manager empty_world, empty_world)"
proof -
  have s: "strip [CHR 0x20, CHR 0x09, CHR 0x0A] = []"
    by (simp add: strip_def strip_chars_def is_space_def)
  from s blank_url_is_skipped[THEN conjunct2, THEN mp, OF s] show ?thesis by simp
qed


text \<open>
  Claim C4. Take a URL that is not blank and whose stripped form is in the mapping. When
  the mapped file is on disk, the task returns without an exception; it sends no request
  and leaves the manager, with its mapping, as it is; the world changes only in that the
  content of the mapped file is copied to the destination directory under the name of the
  mapped file, and not even that when a file of that name is already there. When the mapped
  file is not on disk, the task does what it does for a URL that is not in the mapping: it
  calls \<^verbatim>\<open>download_with_retry\<close>, whose first request is the probe for the URL, and it
  raises only what that call raises.
\<close>

theorem cached_url_is_copied:
  "(strip url \<noteq> [] \<and> url_mapping m (strip url) = Some src \<and> files w src = Some content \<and>
    process_single_url L srv url kd (m, w) = (r, m', w') \<longrightarrow>
      r = None \<and> m' = m \<and> requests w' = requests w \<and>
      w' = (if files w (path_join kd (path_name src)) = None
            then w\<lparr>files := (files w)(path_join kd (path_name src) \<mapsto> content)\<rparr> else w)) \<and>
   (strip url \<noteq> [] \<and> url_mapping m (strip url) = Some src \<and> files w src = None \<and>
    process_single_url L srv url kd (m, w) = (r, m', w') \<longrightarrow>
      (r, m', w') = after_download (strip url) (download_with_retry L srv (strip url) kd 10 (m, w)) \<and>
      (\<exists>rest. requests w' = requests w @ Head (strip url) # rest) \<and>
      (\<forall>e. r = Some e \<longrightarrow> fst (download_with_retry L srv (strip url) kd 10 (m, w)) = Inl e))"
proof (intro conjI impI)
  assume a: "strip url \<noteq> [] \<and> url_mapping m (strip url) = Some src \<and> files w src = Some content \<and>
    process_single_url L srv url kd (m, w) = (r, m', w')"
  then have eq: "(r, m', w') =
     (None, m,
      if files w (path_join kd (path_name src)) = None
      then w\<lparr>files := (files w)(path_join kd (path_name src) \<mapsto> content)\<rparr> else w)"
    using process_single_url_copy[of url m src w content L srv kd] by simp
  show "r = None" "m' = m" using eq by simp_all
  show "requests w' = requests w" using eq by (simp split: if_splits)
  show "w' = (if files w (path_join kd (path_name src)) = None
            then w\<lparr>files := (files w)(path_join kd (path_name src) \<mapsto> content)\<rparr> else w)"
    using eq by simp
next
  assume a: "strip url \<noteq> [] \<and> url_mapping m (strip url) = Some src \<and> files w src = None \<and>
    process_single_url L srv url kd (m, w) = (r, m', w')"
  let ?d = "download_with_retry L srv (strip url) kd 10 (m, w)"
  from a have eq: "(r, m', w') = after_download (strip url) ?d"
    using process_single_url_download[of url m w L srv kd] by auto
  then show "(r, m', w') = after_download (strip url) ?d" .
  obtain r1 p1 m1 w1 where d: "?d = (r1, p1, m1, w1)" by (cases ?d) auto
  from eq d have w: "w' = w1"
    by (auto simp: after_download_def split: sum.splits option.splits if_splits)
  from download_loop_requests[OF d[unfolded download_with_retry_def]]
  obtain rest where rest: "requests w1 = requests w @ rest" "rest \<noteq> []" "hd rest = Head (strip url)"
    by auto
  then have "rest = Head (strip url) # tl rest" by (cases rest) auto
  with rest(1) w have "requests w' = requests w @ Head (strip url) # tl rest" by simp
  then show "\<exists>rest. requests w' = requests w @ Head (strip url) # rest" by blast
  show "\<forall>e. r = Some e \<longrightarrow> fst ?d = Inl e"
    using eq d by (auto simp: after_download_def split: sum.splits option.splits if_splits)
qed

text \<open>
  The theorem at a mapping from \<^verbatim>\<open>u\<close> to \<^verbatim>\<open>download/cat/a.png\<close>: with that file on
  disk it is copied to \<^verbatim>\<open>download/dog/a.png\<close> and no request is sent; without it the URL
  is downloaded and the mapping gets the new path.
\<close>

theorem cached_url_is_copied_witness:
  "strip ''u'' \<noteq> [] \<and>
   process_single_url
      \<lparr>unquote = (\<lambda>s. s), urlparse_path = (\<lambda>u. ''/img/cat.png''), md5_hexdigest = (\<lambda>u. [])\<rparr>
      \<lparr>on_head = (\<lambda>k. HeadOk Map.empty), on_get = (\<lambda>k r. GetStream ''abcdef'' None),
        jitter = (\<lambda>k. 0)\<rparr>
      ''u'' ''download/dog''
      ((init_manager empty_world)\<lparr>url_mapping := [''u'' \<mapsto> ''download/cat/a.png'']\<rparr>,
       empty_world\<lparr>files := [''download/cat/a.png'' \<mapsto> ''xyz'']\<rparr>) =
     (None, (init_manager empty_world)\<lparr>url_mapping := [''u'' \<mapsto> ''download/cat/a.png'']\<rparr>,
      empty_world\<lparr>files := [''download/cat/a.png'' \<mapsto> ''xyz'',
                              ''download/dog/a.png'' \<mapsto> ''xyz'']\<rparr>) \<and>
   process_single_url
      \<lparr>unquote = (\<lambda>s. s), urlparse_path = (\<lambda>u. ''/img/cat.png''), md5_hexdigest = (\<lambda>u. [])\<rparr>
      \<lparr>on_head = (\<lambda>k. HeadOk Map.empty), on_get = (\<lambda>k r. GetStream ''abcdef'' None),
        jitter = (\<lambda>k. 0)\<rparr>
      ''u'' ''download/dog''
      ((init_manager empty_world)\<lparr>url_mapping := [''u'' \<mapsto> ''download/cat/a.png'']\<rparr>,
       empty_world) =
     (None, (init_manager empty_world)\<lparr>url_mapping := [''u'' \<mapsto> ''download/dog/cat.png'']\<rparr>,
      empty_world\<lparr>files := [''download/dog/cat.png'' \<mapsto> ''abcdef''],
                   requests := [Head ''u'', Get ''u'' None]\<rparr>)"
proof -
  let ?L = "\<lparr>unquote = (\<lambda>s. s), urlparse_path = (\<lambda>u. ''/img/cat.png''), md5_hexdigest = (\<lambda>u. [])\<rparr>"
  let ?srv = "\<lparr>on_head = (\<lambda>k. HeadOk Map.empty), on_get = (\<lambda>k r. GetStream ''abcdef'' None),
        jitter = (\<lambda>k. 0)\<rparr>"
  let ?m = "(init_manager empty_world)\<lparr>url_mapping := [''u'' \<mapsto> ''download/cat/a.png'']\<rparr>"
  let ?w = "empty_world\<lparr>files := [''download/cat/a.png'' \<mapsto> ''xyz'']\<rparr>"
  let ?p1 = "process_single_url ?L ?srv ''u'' ''download/dog'' (?m, ?w)"
  let ?p2 = "process_single_url ?L ?srv ''u'' ''download/dog'' (?m, empty_world)"
  have s: "strip ''u'' = ''u''"
    by (simp add: strip_def strip_chars_def is_space_def)
  obtain r1 m1 w1 where p1: "?p1 = (r1, m1, w1)" by (cases ?p1) auto
  have h1: "strip ''u'' \<noteq> [] \<and> url_mapping ?m (strip ''u'') = Some ''download/cat/a.png'' \<and>
    files ?w ''download/cat/a.png'' = Some ''xyz'' \<and> ?p1 = (r1, m1, w1)"
    using p1 by (simp add: s)
  from cached_url_is_copied[of "''u''" ?m "''download/cat/a.png''" ?w "''xyz''" ?L ?srv
      "''download/dog''" r1 m1 w1, THEN conjunct1] h1
  have "r1 = None \<and> m1 = ?m \<and> requests w1 = requests ?w \<and>
      w1 = (if files ?w (path_join ''download/dog'' (path_name ''download/cat/a.png'')) = None
            then ?w\<lparr>files := (files ?w)(path_join ''download/dog'' (path_name ''download/cat/a.png'')
                      \<mapsto> ''xyz'')\<rparr> else ?w)"
    by (rule mp)
  then have c1: "?p1 = (None, ?m, empty_world\<lparr>files := [''download/cat/a.png'' \<mapsto> ''xyz'',
                              ''download/dog/a.png'' \<mapsto> ''xyz'']\<rparr>)"
    unfolding p1 by (simp add: path_join_def path_name_def empty_world_def)
  obtain r2 m2 w2 where p2: "?p2 = (r2, m2, w2)" by (cases ?p2) auto
  have h2: "strip ''u'' \<noteq> [] \<and> url_mapping ?m (strip ''u'') = Some ''download/cat/a.png'' \<and>
    files empty_world ''download/cat/a.png'' = None \<and> ?p2 = (r2, m2, w2)"
    using p2 by (simp add: s empty_world_def)
  from cached_url_is_copied[of "''u''" ?m "''download/cat/a.png''" empty_world "''xyz''" ?L ?srv
      "''download/dog''" r2 m2 w2, THEN conjunct2] h2
  have "(r2, m2, w2) = after_download (strip ''u'')
          (download_with_retry ?L ?srv (strip ''u'') ''download/dog'' 10 (?m, empty_world))"
    by blast
  then have c2: "?p2 = (None,
      (init_manager empty_world)\<lparr>url_mapping := [''u'' \<mapsto> ''download/dog/cat.png'']\<rparr>,
      empty_world\<lparr>files := [''download/dog/cat.png'' \<mapsto> ''abcdef''],
                   requests := [Head ''u'', Get ''u'' None]\<rparr>)"
    unfolding p2 by (simp add: s after_download_def download_eval)
  show ?thesis using s c1 c2 by simp
qed

subsection \<open>All tasks\<close>







subsection \<open>Resumed transfers\<close>

lemma prefix_append_drop:
  "prefix c content \<Longrightarrow> prefix chunks (drop (length c) content) \<Longrightarrow> prefix (c @ chunks) content"
  by (auto simp: prefix_def)

lemma prefix_append_drop_eq:
  "prefix c content \<Longrightarrow> c @ drop (length c) content = content"
  by (auto simp: prefix_def)

lemma fetch_cases:
  assumes "fetch srv url k (lp, tp) (m, w) = (r, m', w')"
    and "c0 = (case files w tp of None \<Rightarrow> [] | Some c \<Rightarrow> c)"
  shows "requests w' = requests w @ [Get url (map_option length (files w tp))] \<and>
    (case on_get srv k (map_option length (files w tp)) of
       GetRaises e \<Rightarrow> r = Inl e \<and> files w' = files w
     | GetStream chunks (Some e) \<Rightarrow> r = Inl e \<and> files w' = (files w)(tp \<mapsto> c0 @ chunks)
     | GetStream chunks None \<Rightarrow>
         r = Inr lp \<and> files w' = ((files w)(tp := None))(lp \<mapsto> c0 @ chunks))"
  using assms
  by (auto simp: fetch_def Let_def split: get_answer.splits option.splits)

lemma fetch_resume:
  assumes srv: "serves srv content" and ne: "tp \<noteq> lp"
    and res: "resumable content (files w) tp"
    and f: "fetch srv url k (lp, tp) (m, w) = (r, m', w')"
  shows "resumable content (files w') tp \<and> (\<forall>p. r = Inr p \<longrightarrow> files w' p = Some content)"
proof -
  define c0 where "c0 = (case files w tp of None \<Rightarrow> [] | Some c \<Rightarrow> c)"
  have off: "range_offset (map_option length (files w tp)) = length c0"
    by (simp add: c0_def range_offset_def split: option.splits)
  have pc0: "prefix c0 content"
    using res by (simp add: c0_def resumable_def split: option.splits)
  note fc = fetch_cases[OF f c0_def]
  show ?thesis
  proof (cases "on_get srv k (map_option length (files w tp))")
    case (GetRaises e)
    with fc res show ?thesis by simp
  next
    case (GetStream chunks err)
    with srv off have pre: "prefix chunks (drop (length c0) content)"
      and full: "err = None \<longrightarrow> chunks = drop (length c0) content"
      unfolding serves_def by metis+
    show ?thesis
    proof (cases err)
      case (Some e)
      with fc GetStream have "r = Inl e" "files w' = (files w)(tp \<mapsto> c0 @ chunks)" by simp_all
      with prefix_append_drop[OF pc0 pre] show ?thesis by (simp add: resumable_def)
    next
      case None
      with fc GetStream have "r = Inr lp" "files w' = ((files w)(tp := None))(lp \<mapsto> c0 @ chunks)"
        by simp_all
      moreover have "c0 @ chunks = content" using full None prefix_append_drop_eq[OF pc0] by simp
      ultimately show ?thesis using ne by (simp add: resumable_def)
    qed
  qed
qed

lemma attempt_body_resume:
  assumes srv: "serves srv content"
    and inv: "resume_inv L srv url kd content paths w"
    and ab: "attempt_body L srv url kd k paths (m, w) = (r, paths', m', w')"
  shows "resume_inv L srv url kd content paths' w' \<and> (\<forall>p. r = Inr p \<longrightarrow> files w' p = Some content)"
proof (cases paths)
  case (Some pp)
  obtain lp tp where pp: "pp = (lp, tp)" by (cases pp)
  obtain r1 m1 w1 where f: "fetch srv url k (lp, tp) (m, w) = (r1, m1, w1)"
    by (cases "fetch srv url k (lp, tp) (m, w)") auto
  with ab Some pp have eq: "r = r1" "paths' = Some (lp, tp)" "w' = w1"
    by (simp_all add: attempt_body_def)
  from inv Some pp have "tp \<noteq> lp" "resumable content (files w) tp"
    by (simp_all add: resume_inv_def)
  from fetch_resume[OF srv this f] eq \<open>tp \<noteq> lp\<close> show ?thesis
    by (simp add: resume_inv_def)
next
  case None
  obtain r0 m0 w0 where pr: "probe L srv url kd k (m, w) = (r0, m0, w0)"
    by (cases "probe L srv url kd k (m, w)") auto
  note pf = probe_facts(2)[OF pr]
  show ?thesis
  proof (cases r0)
    case (Inl e)
    with ab None pr have "r = Inl e" "paths' = None" "w' = w0"
      by (simp_all add: attempt_body_def)
    with inv None pf show ?thesis by (simp add: resume_inv_def)
  next
    case (Inr pp)
    obtain lp tp where pp: "pp = (lp, tp)" by (cases pp)
    from pr Inr pp obtain hs where hs: "on_head srv k = HeadOk hs"
      and tp: "tp = temp_path_for L hs url kd" and lp: "tp = lp @ ''.tmp''"
      by (auto simp: probe_def Let_def temp_path_for_def split: head_answer.splits)
    obtain r1 m1 w1 where f: "fetch srv url k (lp, tp) (m0, w0) = (r1, m1, w1)"
      by (cases "fetch srv url k (lp, tp) (m0, w0)") auto
    with ab None pr Inr pp have eq: "r = r1" "paths' = Some (lp, tp)" "w' = w1"
      by (simp_all add: attempt_body_def)
    have ne: "tp \<noteq> lp" using lp by simp
    have "resumable content (files w0) tp"
      using inv None hs tp pf by (simp add: resume_inv_def)
    from fetch_resume[OF srv ne this f] eq ne show ?thesis
      by (simp add: resume_inv_def)
  qed
qed

lemma resume_inv_files:
  "files w2 = files w1 \<Longrightarrow>
   resume_inv L srv url kd content p w2 = resume_inv L srv url kd content p w1"
  by (cases p) (auto simp: resume_inv_def)

lemma download_loop_resume:
  assumes srv: "serves srv content"
  shows "resume_inv L srv url kd content paths w \<Longrightarrow>
   download_loop L srv url kd mr attempt paths (m, w) = (r, paths', m', w') \<Longrightarrow>
   (\<forall>p. r = Inr (Some p) \<longrightarrow> files w' p = Some content)"
proof (induction "nat (mr - int attempt)" arbitrary: attempt paths m w)
  case 0
  then have "\<not> int attempt < mr" by simp
  with 0(3) show ?case by (auto simp: download_loop_done)
next
  case (Suc n)
  show ?case
  proof (cases rule: download_loop_cases[of attempt mr L srv url kd paths "(m, w)"])
    case over
    with Suc.prems show ?thesis by auto
  next
    case (success lp p1 mw1)
    obtain m1 w1 where mw1: "mw1 = (m1, w1)" by (cases mw1)
    from success(3) Suc.prems mw1 have "r = Inr (Some lp)" "w' = w1" by simp_all
    with attempt_body_resume[OF srv Suc.prems(1) success(2)[unfolded mw1]] show ?thesis by simp
  next
    case (escape e p1 mw1)
    with Suc.prems show ?thesis by auto
  next
    case (exhausted p1 mw1)
    with Suc.prems show ?thesis by auto
  next
    case (retry p1 mw1)
    obtain m1 w1 where mw1: "mw1 = (m1, w1)" by (cases mw1)
    obtain m2 w2 where ra: "retry_after srv attempt (m1, w1) = (m2, w2)"
      by (cases "retry_after srv attempt (m1, w1)") auto
    from retry(3) Suc.prems mw1 ra
    have rec: "download_loop L srv url kd mr (attempt + 1) p1 (m2, w2) = (r, paths', m', w')"
      by simp
    have n: "n = nat (mr - int (attempt + 1))" using Suc(2) by simp
    from attempt_body_resume[OF srv Suc.prems(1) retry(2)[unfolded mw1]]
    have "resume_inv L srv url kd content p1 w1" by simp
    with resume_inv_files[OF retry_after_facts(2)[OF ra]]
    have "resume_inv L srv url kd content p1 w2" by simp
    from Suc(1)[OF n this rec] show ?thesis .
  qed
qed

text \<open>
  Claim C6, as the code has it. The \<^verbatim>\<open>GET\<close> of an attempt is sent with the range offset \<open>S\<close> when the
  temporary file exists with \<open>S\<close> bytes, and without range when it does not exist. The
  bytes received are appended to the \<open>S\<close> bytes already there: after a stream that broke
  the temporary file holds both, and after a stream that ended the file under the final
  name holds both and the temporary file is gone. Against a server that serves the
  resource from the offset asked for, and with a temporary file that is absent at the start
  or holds first bytes of the resource, the file that \<^verbatim>\<open>download_with_retry\<close> returns is
  the resource itself, so it has the advertised length, with no byte twice and none missing.
\<close>

theorem resume_appends_and_completes:
  "(files w tp = Some c \<and> tp \<noteq> lp \<and> fetch srv url k (lp, tp) (m, w) = (r, m', w') \<longrightarrow>
      requests w' = requests w @ [Get url (Some (length c))] \<and>
      (\<forall>chunks err. on_get srv k (Some (length c)) = GetStream chunks err \<longrightarrow>
          (err \<noteq> None \<longrightarrow> files w' tp = Some (c @ chunks)) \<and>
          (err = None \<longrightarrow>
             r = Inr lp \<and> files w' lp = Some (c @ chunks) \<and> files w' tp = None))) \<and>
   (files w tp = None \<and> fetch srv url k (lp, tp) (m, w) = (r, m', w') \<longrightarrow>
      requests w' = requests w @ [Get url None]) \<and>
   (serves srv content \<and>
    (\<forall>k hs. on_head srv k = HeadOk hs \<longrightarrow>
       resumable content (files w) (temp_path_for L hs url kd)) \<and>
    download_with_retry L srv url kd mr (m, w) = (Inr (Some p), paths', m', w') \<longrightarrow>
      files w' p = Some content)"
proof (intro conjI impI allI)
  assume a: "files w tp = Some c \<and> tp \<noteq> lp \<and> fetch srv url k (lp, tp) (m, w) = (r, m', w')"
  then have f: "fetch srv url k (lp, tp) (m, w) = (r, m', w')" and c: "files w tp = Some c"
    and ne: "tp \<noteq> lp" by simp_all
  note fc = fetch_cases[OF f refl, unfolded c, simplified]
  show "requests w' = requests w @ [Get url (Some (length c))]" using fc by simp
  fix chunks err
  assume g: "on_get srv k (Some (length c)) = GetStream chunks err"
  show "files w' tp = Some (c @ chunks)" if "err \<noteq> None"
    using fc g that by auto
  show "r = Inr lp" if "err = None" using fc g that by auto
  show "files w' lp = Some (c @ chunks)" if "err = None" using fc g that by auto
  show "files w' tp = None" if "err = None" using fc g that ne by auto
next
  assume a: "files w tp = None \<and> fetch srv url k (lp, tp) (m, w) = (r, m', w')"
  then have f: "fetch srv url k (lp, tp) (m, w) = (r, m', w')" and c: "files w tp = None"
    by simp_all
  from fetch_facts(2)[OF f] c show "requests w' = requests w @ [Get url None]" by simp
next
  assume a: "serves srv content \<and>
    (\<forall>k hs. on_head srv k = HeadOk hs \<longrightarrow>
       resumable content (files w) (temp_path_for L hs url kd)) \<and>
    download_with_retry L srv url kd mr (m, w) = (Inr (Some p), paths', m', w')"
  then have inv: "resume_inv L srv url kd content None w"
    by (simp add: resume_inv_def)
  from a have run: "download_loop L srv url kd mr 0 None (m, w) = (Inr (Some p), paths', m', w')"
    by (simp add: download_with_retry_def)
  from a download_loop_resume[OF _ inv run] show "files w' p = Some content" by blast
qed

text \<open>
  The theorem at a server for the resource \<^verbatim>\<open>abcdef\<close> whose first transfer breaks after
  two bytes: the second attempt asks for the bytes from offset 2 and the file returned is
  \<^verbatim>\<open>abcdef\<close>. A transfer that finds the temporary file with \<^verbatim>\<open>ab\<close> asks for the bytes
  from offset 2 as well.
\<close>

theorem resume_appends_and_completes_witness:
  "serves
      \<lparr>on_head = (\<lambda>k. HeadOk Map.empty),
        on_get = (\<lambda>k r. if k = 0
                         then GetStream (take 2 (drop (range_offset r) ''abcdef'')) (Some RequestException)
                         else GetStream (drop (range_offset r) ''abcdef'') None),
        jitter = (\<lambda>k. 0)\<rparr> ''abcdef'' \<and>
   download_with_retry
      \<lparr>unquote = (\<lambda>s. s), urlparse_path = (\<lambda>u. ''/img/cat.png''), md5_hexdigest = (\<lambda>u. [])\<rparr>
      \<lparr>on_head = (\<lambda>k. HeadOk Map.empty),
        on_get = (\<lambda>k r. if k = 0
                         then GetStream (take 2 (drop (range_offset r) ''abcdef'')) (Some RequestException)
                         else GetStream (drop (range_offset r) ''abcdef'') None),
        jitter = (\<lambda>k. 0)\<rparr>
      ''u'' ''download/dog'' 10 (init_manager empty_world, empty_world) =
     (Inr (Some ''download/dog/cat.png''),
      Some (''download/dog/cat.png'', ''download/dog/cat.png.tmp''),
      init_manager empty_world,
      empty_world\<lparr>files := [''download/dog/cat.png'' \<mapsto> ''abcdef''],
                   requests := [Head ''u'', Get ''u'' None, Get ''u'' (Some 2)],
                   waits := [1]\<rparr>) \<and>
   files (empty_world\<lparr>files := [''download/dog/cat.png'' \<mapsto> ''abcdef''],
                   requests := [Head ''u'', Get ''u'' None, Get ''u'' (Some 2)],
                   waits := [1]\<rparr>) ''download/dog/cat.png'' = Some ''abcdef'' \<and>
   requests (snd (snd (fetch
      \<lparr>on_head = (\<lambda>k. HeadOk Map.empty),
        on_get = (\<lambda>k r. if k = 0
                         then GetStream (take 2 (drop (range_offset r) ''abcdef'')) (Some RequestException)
                         else GetStream (drop (range_offset r) ''abcdef'') None),
        jitter = (\<lambda>k. 0)\<rparr>
      ''u'' 1 (''download/dog/cat.png'', ''download/dog/cat.png.tmp'')
      (init_manager empty_world,
       empty_world\<lparr>files := [''download/dog/cat.png.tmp'' \<mapsto> ''ab'']\<rparr>)))) =
     [Get ''u'' (Some 2)] \<and>
   files (snd (snd (fetch
      \<lparr>on_head = (\<lambda>k. HeadOk Map.empty),
        on_get = (\<lambda>k r. if k = 0
                         then GetStream (take 2 (drop (range_offset r) ''abcdef'')) (Some RequestException)
                         else GetStream (drop (range_offset r) ''abcdef'') None),
        jitter = (\<lambda>k. 0)\<rparr>
      ''u'' 1 (''download/dog/cat.png'', ''download/dog/cat.png.tmp'')
      (init_manager empty_world,
       empty_world\<lparr>files := [''download/dog/cat.png.tmp'' \<mapsto> ''ab'']\<rparr>))))
      ''download/dog/cat.png'' = Some ''abcdef''"
proof -
  let ?L = "\<lparr>unquote = (\<lambda>s. s), urlparse_path = (\<lambda>u. ''/img/cat.png''), md5_hexdigest = (\<lambda>u. [])\<rparr>"
  let ?srv = "\<lparr>on_head = (\<lambda>k. HeadOk Map.empty),
        on_get = (\<lambda>k r. if k = 0
                         then GetStream (take 2 (drop (range_offset r) ''abcdef'')) (Some RequestException)
                         else GetStream (drop (range_offset r) ''abcdef'') None),
        jitter = (\<lambda>k. 0)\<rparr>"
  let ?lp = "''download/dog/cat.png''"
  let ?tp = "''download/dog/cat.png.tmp''"
  let ?m = "init_manager empty_world"
  let ?w = "empty_world\<lparr>files := [?tp \<mapsto> ''ab'']\<rparr>"
  let ?run = "download_with_retry ?L ?srv ''u'' ''download/dog'' 10 (?m, empty_world)"
  let ?f = "fetch ?srv ''u'' 1 (?lp, ?tp) (?m, ?w)"
  have srv: "serves ?srv ''abcdef''"
    by (auto simp: serves_def take_is_prefix split: if_splits)
  have run: "?run = (Inr (Some ?lp), Some (?lp, ?tp), ?m,
      empty_world\<lparr>files := [?lp \<mapsto> ''abcdef''],
                   requests := [Head ''u'', Get ''u'' None, Get ''u'' (Some 2)],
                   waits := [1]\<rparr>)"
    by (simp add: download_eval range_offset_def)
  have res: "\<forall>k hs. on_head ?srv k = HeadOk hs \<longrightarrow>
       resumable ''abcdef'' (files empty_world) (temp_path_for ?L hs ''u'' ''download/dog'')"
    by (simp add: resumable_def empty_world_def)
  obtain r m' w' where f: "?f = (r, m', w')" by (cases ?f) auto
  have h1: "files ?w ?tp = Some ''ab'' \<and> ?tp \<noteq> ?lp \<and> ?f = (r, m', w')"
    using f by simp
  have g: "on_get ?srv 1 (Some (length ''ab'')) = GetStream ''cdef'' None"
    by (simp add: range_offset_def)
  note T = resume_appends_and_completes[of ?w ?tp "''ab''" ?lp ?srv "''u''" 1 ?m r m' w'
      "''abcdef''" ?L "''download/dog''" 10 ?lp "Some (?lp, ?tp)"]
  from T[THEN conjunct1] h1 have
    c1: "requests w' = requests ?w @ [Get ''u'' (Some (length ''ab''))] \<and>
      (\<forall>chunks err. on_get ?srv 1 (Some (length ''ab'')) = GetStream chunks err \<longrightarrow>
          (err \<noteq> None \<longrightarrow> files w' ?tp = Some (''ab'' @ chunks)) \<and>
          (err = None \<longrightarrow>
             r = Inr ?lp \<and> files w' ?lp = Some (''ab'' @ chunks) \<and> files w' ?tp = None))"
    by (rule mp)
  then have rq: "requests w' = [Get ''u'' (Some 2)]" by (simp add: empty_world_def)
  from c1 g have fl: "files w' ?lp = Some (''ab'' @ ''cdef'')" by blast
  from rq fl have c: "requests (snd (snd ?f)) = [Get ''u'' (Some 2)] \<and>
      files (snd (snd ?f)) ?lp = Some ''abcdef''"
    unfolding f by simp
  let ?w2 = "empty_world\<lparr>files := [?lp \<mapsto> ''abcdef''],
                   requests := [Head ''u'', Get ''u'' None, Get ''u'' (Some 2)],
                   waits := [1]\<rparr>"
  note T2 = resume_appends_and_completes[of empty_world ?tp "''ab''" ?lp ?srv "''u''" 1 ?m r ?m ?w2
      "''abcdef''" ?L "''download/dog''" 10 ?lp "Some (?lp, ?tp)"]
  from T2[THEN conjunct2, THEN conjunct2] conjI[OF srv conjI[OF res run]]
  have whole: "files ?w2 ?lp = Some ''abcdef''" by (rule mp)
  show ?thesis using srv run c whole by blast
qed

text \<open>
  The claim as the specification states it, for every attempt, fails against a server that
  does not honour the range: it advertises 6 bytes and sends all of them although the
  request asked for the bytes from offset 2. The code does not look at the status or the
  length of the answer; it appends the 6 bytes to the 2 of the temporary file, and the
  file it returns has 8.
\<close>

theorem range_ignored_counterexample:
  "download_with_retry
      \<lparr>unquote = (\<lambda>s. s), urlparse_path = (\<lambda>u. ''/img/cat.png''), md5_hexdigest = (\<lambda>u. [])\<rparr>
      \<lparr>on_head = (\<lambda>k. HeadOk [''Content-Length'' \<mapsto> ''6'']),
        on_get = (\<lambda>k r. GetStream ''abcdef'' None), jitter = (\<lambda>k. 0)\<rparr>
      ''u'' ''download/dog'' 10
      (init_manager empty_world,
       empty_world\<lparr>files := [''download/dog/cat.png.tmp'' \<mapsto> ''ab'']\<rparr>) =
     (Inr (Some ''download/dog/cat.png''),
      Some (''download/dog/cat.png'', ''download/dog/cat.png.tmp''),
      init_manager empty_world,
      empty_world\<lparr>files := [''download/dog/cat.png'' \<mapsto> ''ababcdef''],
                   requests := [Head ''u'', Get ''u'' (Some 2)]\<rparr>) \<and>
   length ''ababcdef'' \<noteq> length ''abcdef''"
  by (simp add: download_eval fun_upd_twist)


end
